theory Spec2Isabelle
  imports Main "HOL-Library.Word" "HOL-Library.Product_Lexorder"
begin

section \<open>Machine integers and errors\<close>

text \<open>
  Go's \<open>uint64\<close> is a 64-bit word: \<open>+\<close>, \<open>-\<close> and \<open>*\<close> wrap around, \<open>div\<close> and
  \<open>mod\<close> are the unsigned \<open>/\<close> and \<open>%\<close>.  Go's \<open>int\<close> is modelled as \<open>int\<close>; the
  conversions \<open>uint64(n)\<close> and \<open>int(w)\<close> are \<open>word_of_int\<close> and \<open>sint\<close>, which wrap as
  the Go conversions do.
\<close>

type_synonym u64 = "64 word"

datatype panic = NegativeValue | DivideByZero | NilDereference | IndexOutOfRange | InvalidRange

section \<open>tracking/bytes.go: the bytes meter\<close>

record bytesMeter =
  bytesWritten :: u64
  bytesRead :: u64

definition AddBytesWritten :: "bytesMeter \<Rightarrow> int \<Rightarrow> panic + bytesMeter" where
  "AddBytesWritten b n =
     (if n < 0 then Inl NegativeValue
      else Inr (b\<lparr>bytesWritten := bytesWritten b + word_of_int n\<rparr>))"

definition AddBytesRead :: "bytesMeter \<Rightarrow> int \<Rightarrow> panic + bytesMeter" where
  "AddBytesRead b n = Inr (b\<lparr>bytesRead := bytesRead b + word_of_int n\<rparr>)"

definition BytesWritten :: "bytesMeter \<Rightarrow> u64" where
  "BytesWritten b = bytesWritten b"

definition BytesRead :: "bytesMeter \<Rightarrow> u64" where
  "BytesRead b = bytesRead b"

section \<open>block: ranges and the Segmenter\<close>

record Range =
  StartBlock :: u64
  ExclusiveEndBlock :: u64

text \<open>
  Modelled from the spec: \<open>block.NewRange\<close> is called by the Segmenter but is not part of
  the sources at hand.  The spec's data model has a range as the half-open interval
  \<open>[start, exclusiveEnd)\<close> with \<open>start < exclusiveEnd\<close>: \<open>NewRange\<close> builds that range, and
  there is no range to build otherwise (a panic).
\<close>

definition NewRange :: "u64 \<Rightarrow> u64 \<Rightarrow> panic + Range" where
  "NewRange startBlock exclusiveEnd =
     (if exclusiveEnd \<le> startBlock then Inl InvalidRange
      else Inr \<lparr>StartBlock = startBlock, ExclusiveEndBlock = exclusiveEnd\<rparr>)"

text \<open>A non-nil pointer to the range that \<open>NewRange\<close> built.\<close>

definition rangePtr :: "panic + Range \<Rightarrow> panic + Range option" where
  "rangePtr x = (case x of Inl p \<Rightarrow> Inl p | Inr r \<Rightarrow> Inr (Some r))"

record Segmenter =
  interval :: u64
  initialBlock :: u64
  exclusiveEndBlock :: u64
  count :: int

text \<open>\<open>computeCount\<close> divides by the interval: a zero interval is Go's run-time panic.\<close>

definition computeCount :: "Segmenter \<Rightarrow> panic + int" where
  "computeCount s =
     (if interval s = 0 then Inl DivideByZero
      else let initSegment = initialBlock s div interval s;
               lastSegment = exclusiveEndBlock s div interval s
           in Inr (sint (lastSegment - initSegment + 1)))"

definition NewSegmenter :: "u64 \<Rightarrow> u64 \<Rightarrow> u64 \<Rightarrow> panic + Segmenter" where
  "NewSegmenter itv initBlock exclEnd =
     (let s = \<lparr>interval = itv, initialBlock = initBlock, exclusiveEndBlock = exclEnd, count = 0\<rparr>
      in case computeCount s of
           Inl p \<Rightarrow> Inl p
         | Inr c \<Rightarrow> Inr (s\<lparr>count := c\<rparr>))"

definition Count :: "Segmenter \<Rightarrow> int" where
  "Count s = count s"

text \<open>A \<open>nil\<close> range is \<open>None\<close>.\<close>

definition firstRange :: "Segmenter \<Rightarrow> panic + Range option" where
  "firstRange s =
     (if exclusiveEndBlock s < initialBlock s then Inr None
      else if interval s = 0 then Inl DivideByZero
      else let floorLowerBound = initialBlock s - initialBlock s mod interval s;
               upperBound = floorLowerBound + interval s
           in rangePtr (NewRange (initialBlock s) (min upperBound (exclusiveEndBlock s))))"

definition rangeFromBegin :: "Segmenter \<Rightarrow> int \<Rightarrow> panic + Range option" where
  "rangeFromBegin s idx =
     (if idx \<ge> count s then Inr None
      else if interval s = 0 then Inl DivideByZero
      else let baseBlock0 = initialBlock s - initialBlock s mod interval s;
               baseBlock = baseBlock0 + word_of_int idx * interval s;
               upperBound = baseBlock + interval s
           in rangePtr (NewRange baseBlock (min upperBound (exclusiveEndBlock s))))"

definition Segmenter_Range :: "Segmenter \<Rightarrow> int \<Rightarrow> panic + Range option" where
  "Segmenter_Range s idx =
     (if idx < 0 then Inr None
      else if idx = 0 then firstRange s
      else rangeFromBegin s idx)"

definition IndexForBlock :: "Segmenter \<Rightarrow> u64 \<Rightarrow> panic + int" where
  "IndexForBlock s blockNum =
     (if interval s = 0 then Inl DivideByZero
      else let blockSegment = blockNum div interval s;
               initSegment = initialBlock s div interval s
           in Inr (sint (blockSegment - initSegment)))"

text \<open>
  \<open>IndexForBlock(Range(k).StartBlock)\<close>: the field access on a \<open>nil\<close> range is a
  nil-pointer dereference.
\<close>

definition indexOfRangeStart :: "Segmenter \<Rightarrow> int \<Rightarrow> panic + int" where
  "indexOfRangeStart s k =
     (case Segmenter_Range s k of
        Inl p \<Rightarrow> Inl p
      | Inr None \<Rightarrow> Inl NilDereference
      | Inr (Some r) \<Rightarrow> IndexForBlock s (StartBlock r))"

text \<open>
  The first segment as the specification words it: \<open>[b0, min(ceil(b0/I) * I, bN))\<close>, over
  the unsigned values.
\<close>

definition spec_firstRange :: "u64 \<Rightarrow> u64 \<Rightarrow> u64 \<Rightarrow> Range" where
  "spec_firstRange itv b0 bN =
     \<lparr>StartBlock = b0,
      ExclusiveEndBlock =
        word_of_nat (min (((unat b0 + unat itv - 1) div unat itv) * unat itv) (unat bN))\<rparr>"

section \<open>orchestrator/squasher.go: the Squasher\<close>

text \<open>
  Of \<open>state.Store\<close> the squasher reads the name and the two initial blocks.  What a store
  holds, and what is on durable storage, stays abstract: every call the squasher makes on a
  store or on the notifier is recorded, in order, in a trace.
\<close>

record Store =
  Name :: string
  ModuleInitialBlock :: u64
  StoreInitialBlock :: u64

datatype call =
    LoadFrom Range
  | Merge Range
  | WriteState u64
  | DeletePartialFile u64
  | Notify string u64

datatype event = Done call | Failed call

record world =
  polls :: nat
  trace :: "event list"

text \<open>
  The surroundings of a run: \<open>ctxDone env n\<close> tells whether the \<open>n\<close>-th poll of
  \<open>ctx.Done()\<close> finds the context cancelled, and \<open>fails env h c\<close> whether the call \<open>c\<close>,
  made after the history \<open>h\<close>, returns an error.  \<open>Range.Split\<close> is not part of the
  sources at hand and is taken as the parameter \<open>split\<close>.
\<close>

record env =
  ctxDone :: "nat \<Rightarrow> bool"
  fails :: "event list \<Rightarrow> call \<Rightarrow> bool"
  split :: "Range \<Rightarrow> u64 \<Rightarrow> Range list"

datatype error =
    ContextErr
  | InitializingNextPartialBuilder string
  | Merging
  | WritingState
  | StartBlockPriorToInitialBlock string u64 u64
  | SquashingRange u64 u64 error
  | Panicked panic

definition record_event :: "world \<Rightarrow> event \<Rightarrow> world" where
  "record_event w e = w\<lparr>trace := trace w @ [e]\<rparr>"

text \<open>The ranges merged into the store so far, oldest first.\<close>

fun merged :: "event list \<Rightarrow> Range list" where
  "merged [] = []"
| "merged (Done (Merge r) # es) = r # merged es"
| "merged (e # es) = merged es"

record Squashable =
  name :: string
  builder :: Store
  ranges :: "Range list"
  storeSaveInterval :: u64
  targetExclusiveBlock :: u64
  nextExpectedStartBlock :: u64
  targetReached :: bool

definition NewSquashable :: "Store \<Rightarrow> u64 \<Rightarrow> u64 \<Rightarrow> u64 \<Rightarrow> Squashable" where
  "NewSquashable initialBuilder targetExclusive saveInterval nextExpected =
     \<lparr>name = Name initialBuilder,
      builder = initialBuilder,
      ranges = [],
      storeSaveInterval = saveInterval,
      targetExclusiveBlock = targetExclusive,
      nextExpectedStartBlock = nextExpected,
      targetReached = False\<rparr>"

text \<open>
  Modelled from the spec: the \<open>sort.Interface\<close> of \<open>block.Ranges\<close> is not part of the
  sources at hand.  The spec orders ranges first by start, then by exclusive end.
\<close>

definition rangeKey :: "Range \<Rightarrow> u64 \<times> u64" where
  "rangeKey r = (StartBlock r, ExclusiveEndBlock r)"

definition sortRanges :: "Range list \<Rightarrow> Range list" where
  "sortRanges rs = sort_key rangeKey rs"

definition cumulateBoundedRange :: "Squashable \<Rightarrow> Range \<Rightarrow> Squashable" where
  "cumulateBoundedRange s blockRange =
     (if ExclusiveEndBlock blockRange \<le> StoreInitialBlock (builder s) then s
      else s\<lparr>ranges := sortRanges (ranges s @ [blockRange])\<rparr>)"


text \<open>
  One turn of the loop of \<open>mergeAvailablePartials\<close>: it returns an error, breaks out of
  the loop, or goes round again.  The mutations made before an error return stay.
\<close>

datatype loop_exit = LoopReturn error | LoopBreak | LoopContinue

definition mergeIteration ::
  "env \<Rightarrow> bool \<Rightarrow> Squashable \<Rightarrow> world \<Rightarrow> loop_exit \<times> Squashable \<times> world" where
  "mergeIteration env notifier s w0 =
     (let w1 = w0\<lparr>polls := polls w0 + 1\<rparr> in
      if ctxDone env (polls w0) then (LoopReturn ContextErr, s, w1)
      else case ranges s of
        [] \<Rightarrow> (LoopBreak, s, w1)
      | squashableRange # rest \<Rightarrow>
          if nextExpectedStartBlock s \<noteq> StartBlock squashableRange then (LoopBreak, s, w1)
          else if fails env (trace w1) (LoadFrom squashableRange)
            then (LoopReturn (InitializingNextPartialBuilder (name s)), s,
                  record_event w1 (Failed (LoadFrom squashableRange)))
          else let w2 = record_event w1 (Done (LoadFrom squashableRange)) in
          if fails env (trace w2) (Merge squashableRange)
            then (LoopReturn Merging, s, record_event w2 (Failed (Merge squashableRange)))
          else let w3 = record_event w2 (Done (Merge squashableRange));
                   s1 = s\<lparr>nextExpectedStartBlock := ExclusiveEndBlock squashableRange\<rparr> in
          if storeSaveInterval s1 = 0 then (LoopReturn (Panicked DivideByZero), s1, w3)
          else let endsOnBoundary =
                     (ExclusiveEndBlock squashableRange mod storeSaveInterval s1 = 0) in
          if endsOnBoundary
             \<and> fails env (trace w3) (WriteState (ExclusiveEndBlock squashableRange))
            then (LoopReturn WritingState, s1,
                  record_event w3 (Failed (WriteState (ExclusiveEndBlock squashableRange))))
          else let w4 = (if endsOnBoundary
                          then record_event w3
                                 (Done (WriteState (ExclusiveEndBlock squashableRange)))
                        else if fails env (trace w3)
                                  (DeletePartialFile (ExclusiveEndBlock squashableRange))
                          then record_event w3
                                 (Failed (DeletePartialFile (ExclusiveEndBlock squashableRange)))
                        else record_event w3
                               (Done (DeletePartialFile (ExclusiveEndBlock squashableRange))));
                   s2 = s1\<lparr>ranges := rest\<rparr> in
          if ExclusiveEndBlock squashableRange = targetExclusiveBlock s2
            then (LoopContinue, s2\<lparr>targetReached := True\<rparr>,
                  if notifier
                    then record_event w4
                           (Done (Notify (Name (builder s2)) (ExclusiveEndBlock squashableRange)))
                    else w4)
          else (LoopContinue, s2, w4))"

function mergeAvailablePartials ::
  "env \<Rightarrow> bool \<Rightarrow> Squashable \<Rightarrow> world \<Rightarrow> error option \<times> Squashable \<times> world" where
  "mergeAvailablePartials env notifier s w =
     (case mergeIteration env notifier s w of
        (LoopReturn err, s', w') \<Rightarrow> (Some err, s', w')
      | (LoopBreak, s', w') \<Rightarrow> (None, s', w')
      | (LoopContinue, s', w') \<Rightarrow> mergeAvailablePartials env notifier s' w')"
  by pat_completeness auto
termination
  apply (relation "measure (\<lambda>(env, notifier, s, w). length (ranges s))")
   apply simp
  apply (auto simp: mergeIteration_def Let_def split: if_splits list.splits)
  done

text \<open>The two loops of \<open>squash\<close> over the split ranges.\<close>

fun cumulateRanges :: "Squashable \<Rightarrow> Range list \<Rightarrow> error option \<times> Squashable" where
  "cumulateRanges s [] = (None, s)"
| "cumulateRanges s (br # brs) =
     (if StartBlock br < ModuleInitialBlock (builder s)
        then (Some (StartBlockPriorToInitialBlock (name s) (StartBlock br)
                      (ModuleInitialBlock (builder s))), s)
      else cumulateRanges (cumulateBoundedRange s br) brs)"

fun mergeRanges ::
  "env \<Rightarrow> bool \<Rightarrow> Squashable \<Rightarrow> world \<Rightarrow> Range list \<Rightarrow> error option \<times> Squashable \<times> world" where
  "mergeRanges env notifier s w [] = (None, s, w)"
| "mergeRanges env notifier s w (br # brs) =
     (case mergeAvailablePartials env notifier s w of
        (Some (Panicked p), s', w') \<Rightarrow> (Some (Panicked p), s', w')
      | (Some err, s', w') \<Rightarrow>
          (Some (SquashingRange (StartBlock br) (ExclusiveEndBlock br) err), s', w')
      | (None, s', w') \<Rightarrow> mergeRanges env notifier s' w' brs)"

definition squash ::
  "env \<Rightarrow> bool \<Rightarrow> Squashable \<Rightarrow> world \<Rightarrow> Range \<Rightarrow> error option \<times> Squashable \<times> world" where
  "squash env notifier s w blockRange =
     (let splitBlockRanges = split env blockRange (storeSaveInterval s) in
      case cumulateRanges s splitBlockRanges of
        (Some err, s') \<Rightarrow> (Some err, s', w)
      | (None, s') \<Rightarrow> mergeRanges env notifier s' w splitBlockRanges)"

text \<open>
  A sequence of \<open>squash\<close> calls on one Squashable, as the scheduler issues them when
  workers report success.  The results of the calls are collected; the state and the
  world are threaded through.
\<close>

fun squashAll ::
  "env \<Rightarrow> bool \<Rightarrow> Squashable \<Rightarrow> world \<Rightarrow> Range list \<Rightarrow> error option list \<times> Squashable \<times> world" where
  "squashAll env notifier s w [] = ([], s, w)"
| "squashAll env notifier s w (r # rs) =
     (case squash env notifier s w r of
        (res, s', w') \<Rightarrow>
          (case squashAll env notifier s' w' rs of
             (ress, s'', w'') \<Rightarrow> (res # ress, s'', w'')))"

text \<open>
  Modelled from the spec: \<open>Range.Split\<close> is not part of the sources at hand.  The spec
  has \<open>squash\<close> split a range at the multiples of the save interval into the minimal
  covering sequence of segment-aligned sub-ranges.  (A zero chunk size or an empty range,
  about which the spec is silent, gives the range back.)
\<close>

definition Split :: "Range \<Rightarrow> u64 \<Rightarrow> Range list" where
  "Split r chunkSize =
     (let s = unat (StartBlock r); e = unat (ExclusiveEndBlock r); c = unat chunkSize in
      if c = 0 \<or> e \<le> s then [r]
      else map (\<lambda>k. \<lparr>StartBlock = word_of_nat (max s (k * c)),
                      ExclusiveEndBlock = word_of_nat (min e ((k + 1) * c))\<rparr>)
             [s div c ..< (e + c - 1) div c])"

text \<open>Every call succeeds and the context is never cancelled.\<close>

definition quietEnv :: env where
  "quietEnv = \<lparr>ctxDone = (\<lambda>n. False), fails = (\<lambda>h c. False), split = Split\<rparr>"

definition emptyWorld :: world where
  "emptyWorld = \<lparr>polls = 0, trace = []\<rparr>"

text \<open>
  A sequence of ranges is a chain from \<open>a\<close> to \<open>b\<close> when the first starts at \<open>a\<close>, each
  next one starts at the exclusive end of the one before, and the last ends at \<open>b\<close>.
\<close>

fun chain :: "u64 \<Rightarrow> Range list \<Rightarrow> u64 \<Rightarrow> bool" where
  "chain a [] b = (a = b)"
| "chain a (r # rs) b = (StartBlock r = a \<and> chain (ExclusiveEndBlock r) rs b)"

text \<open>
  The invariant of a Squashable seeded with \<open>nextExpectedStartBlock = n0\<close>: the merged
  ranges form a chain from \<open>n0\<close> to the current \<open>nextExpectedStartBlock\<close>, and the
  pending list is sorted.
\<close>

definition squashInv :: "u64 \<Rightarrow> Squashable \<Rightarrow> world \<Rightarrow> bool" where
  "squashInv n0 s w \<longleftrightarrow>
     chain n0 (merged (trace w)) (nextExpectedStartBlock s)
     \<and> sorted (map rangeKey (ranges s))"

text \<open>A property of ranges that holds of everything pending or merged.\<close>

definition rangesAll :: "(Range \<Rightarrow> bool) \<Rightarrow> Squashable \<Rightarrow> world \<Rightarrow> bool" where
  "rangesAll P s w \<longleftrightarrow> list_all P (ranges s) \<and> list_all P (merged (trace w))"

text \<open>The fields of a Squashable that no operation writes.\<close>

definition sameConfig :: "Squashable \<Rightarrow> Squashable \<Rightarrow> bool" where
  "sameConfig s s' \<longleftrightarrow>
     builder s' = builder s \<and> name s' = name s
     \<and> storeSaveInterval s' = storeSaveInterval s
     \<and> targetExclusiveBlock s' = targetExclusiveBlock s"

definition runInv :: "(Range \<Rightarrow> bool) \<Rightarrow> u64 \<Rightarrow> Squashable \<Rightarrow> Squashable \<Rightarrow> world \<Rightarrow> bool" where
  "runInv P n0 s0 s w \<longleftrightarrow> sameConfig s0 s \<and> squashInv n0 s w \<and> rangesAll P s w"

text \<open>A store \<open>B\<close> whose module and store start at block 0, used in worked examples.\<close>

definition storeB :: Store where
  "storeB = \<lparr>Name = ''B'', ModuleInitialBlock = 0, StoreInitialBlock = 0\<rparr>"

definition keptInv :: "(Range \<Rightarrow> bool) \<Rightarrow> Squashable \<Rightarrow> Squashable \<Rightarrow> world \<Rightarrow> bool" where
  "keptInv P s0 s w \<longleftrightarrow> sameConfig s0 s \<and> rangesAll P s w"

text \<open>The ranges for which \<open>LoadFrom\<close> was called, whether or not the call succeeded.\<close>

fun loaded :: "event list \<Rightarrow> Range list" where
  "loaded [] = []"
| "loaded (Done (LoadFrom r) # es) = r # loaded es"
| "loaded (Failed (LoadFrom r) # es) = r # loaded es"
| "loaded (e # es) = loaded es"

definition untouchedInv :: "(Range \<Rightarrow> bool) \<Rightarrow> Squashable \<Rightarrow> Squashable \<Rightarrow> world \<Rightarrow> bool" where
  "untouchedInv P s0 s w \<longleftrightarrow> keptInv P s0 s w \<and> list_all P (loaded (trace w))"

text \<open>The context is cancelled from the start; every call would succeed.\<close>

definition cancelledEnv :: env where
  "cancelledEnv = \<lparr>ctxDone = (\<lambda>n. True), fails = (\<lambda>h c. False), split = Split\<rparr>"

subsection \<open>Readiness of the stores\<close>









section \<open>orchestrator/work: the Plan\<close>

record Job =
  ModuleName :: string
  RequestRange :: Range
  requiredModules :: "string list"
  priority :: int

record Plan =
  waitingJobs :: "Job list"
  readyJobs :: "Job list"
  modulesReadyUpToBlock :: "string \<rightharpoonup> u64"

text \<open>
  Modelled from the spec: \<open>Plan.NextJob\<close> is not part of the sources at hand, only its
  test \<open>TestPlan_NextJob\<close> is.  The spec gives its two results: the job is the
  highest-priority ready Job, removed from \<open>readyJobs\<close>, or \<open>nil\<close> when none is ready;
  \<open>moreComing\<close> is true iff \<open>waitingJobs\<close> is non-empty or \<open>readyJobs\<close> still has
  items after the removal.  Among ready jobs of the same priority the earliest in the
  list is taken, as the test expects.
\<close>

fun highestPriority :: "Job list \<Rightarrow> Job option" where
  "highestPriority [] = None"
| "highestPriority (j # js) =
     (case highestPriority js of
        None \<Rightarrow> Some j
      | Some k \<Rightarrow> if priority j < priority k then Some k else Some j)"

definition NextJob :: "Plan \<Rightarrow> (Job option \<times> bool) \<times> Plan" where
  "NextJob p =
     (case highestPriority (readyJobs p) of
        None \<Rightarrow> ((None, waitingJobs p \<noteq> []), p)
      | Some job \<Rightarrow>
          (let p' = p\<lparr>readyJobs := remove1 job (readyJobs p)\<rparr>
           in ((Some job, waitingJobs p' \<noteq> [] \<or> readyJobs p' \<noteq> []), p')))"

text \<open>The jobs of \<open>TestPlan_NextJob\<close>: a module name and the range \<open>[0, 100)\<close>.\<close>

definition mkJob :: "string \<Rightarrow> Job" where
  "mkJob el = \<lparr>ModuleName = el,
               RequestRange = \<lparr>StartBlock = 0, ExclusiveEndBlock = 100\<rparr>,
               requiredModules = [], priority = 0\<rparr>"

section \<open>orchestrator/stage/stages.go: the matrix of segments and stages\<close>

text \<open>
  Modelled from the spec: the declarations of \<open>Unit\<close>, \<open>UnitState\<close> and \<open>Stage\<close> are not
  part of the sources at hand.  The spec names the states pending, scheduled,
  partialPresent, merging and completed; a new cell of the matrix is pending (the tests
  print a fresh cell as pending).  The Segmenter that \<open>stages.go\<close> calls has the methods
  \<open>FirstIndex\<close>, \<open>LastIndex\<close> and \<open>Range\<close>, which the Segmenter at hand lacks: their
  results are the fields of \<open>SegmenterView\<close>.
\<close>

datatype UnitState = UnitPending | UnitPartialPresent | UnitScheduled | UnitMerging | UnitCompleted

record Unit =
  Segment :: int
  Stage :: int

record SegmenterView =
  FirstIndex :: int
  LastIndex :: int
  RangeAt :: "int \<Rightarrow> Range option"

record Stages =
  segmenter :: SegmenterView
  stages :: "SegmenterView list"
  segmentStates :: "UnitState list list"
  segmentOffset :: int

text \<open>
  Of a \<open>Stage\<close> only its segmenter is read, so \<open>stages\<close> lists the stages' segmenters.
  Indexing a slice out of its bounds is a run-time panic.
\<close>

definition slice_at :: "'a list \<Rightarrow> int \<Rightarrow> panic + 'a" where
  "slice_at xs i = (if i < 0 \<or> int (length xs) \<le> i then Inl IndexOutOfRange else Inr (xs ! nat i))"

definition GetState :: "Stages \<Rightarrow> Unit \<Rightarrow> panic + UnitState" where
  "GetState s u =
     (case slice_at (segmentStates s) (Segment u - segmentOffset s) of
        Inl p \<Rightarrow> Inl p
      | Inr row \<Rightarrow> slice_at row (Stage u))"

definition setState :: "Stages \<Rightarrow> Unit \<Rightarrow> UnitState \<Rightarrow> panic + Stages" where
  "setState s u st =
     (case slice_at (segmentStates s) (Segment u - segmentOffset s) of
        Inl p \<Rightarrow> Inl p
      | Inr row \<Rightarrow>
          (case slice_at row (Stage u) of
             Inl p \<Rightarrow> Inl p
           | Inr old \<Rightarrow>
               Inr (s\<lparr>segmentStates :=
                        (segmentStates s)[nat (Segment u - segmentOffset s)
                                            := row[nat (Stage u) := st]]\<rparr>)))"

text \<open>
  Modelled from the spec: \<open>markSegmentScheduled\<close> is not part of the sources at hand; the
  unit handed out by \<open>NextJob\<close> becomes scheduled.
\<close>

definition markSegmentScheduled :: "Stages \<Rightarrow> Unit \<Rightarrow> panic + Stages" where
  "markSegmentScheduled s u = setState s u UnitScheduled"

definition growSegments :: "Stages \<Rightarrow> Stages" where
  "growSegments s =
     (let by = (if length (segmentStates s) = 0 then 2 else length (segmentStates s))
      in s\<lparr>segmentStates :=
             segmentStates s @ replicate by (replicate (length (stages s)) UnitPending)\<rparr>)"

text \<open>
  The loop of \<open>dependenciesCompleted\<close> over the stages below \<open>u.Stage\<close>, highest first:
  \<open>lowerStagesCompleted s seg n\<close> looks at the stages \<open>n - 1, \<dots>, 0\<close> of segment \<open>seg - 1\<close>.
\<close>

fun lowerStagesCompleted :: "Stages \<Rightarrow> int \<Rightarrow> nat \<Rightarrow> panic + bool" where
  "lowerStagesCompleted s seg 0 = Inr True"
| "lowerStagesCompleted s seg (Suc i) =
     (case GetState s \<lparr>Segment = seg - 1, Stage = int i\<rparr> of
        Inl p \<Rightarrow> Inl p
      | Inr st \<Rightarrow> if st \<noteq> UnitCompleted then Inr False else lowerStagesCompleted s seg i)"

definition dependenciesCompleted :: "Stages \<Rightarrow> Unit \<Rightarrow> panic + bool" where
  "dependenciesCompleted s u =
     (case slice_at (stages s) (Stage u) of
        Inl p \<Rightarrow> Inl p
      | Inr stage \<Rightarrow>
          if Segment u \<le> FirstIndex stage then Inr True
          else if Stage u = 0 then Inr True
          else lowerStagesCompleted s (Segment u) (nat (Stage u)))"

text \<open>
  The inner loop of \<open>NextJob\<close>: \<open>scanStages s segmentIdx n\<close> tries the stages
  \<open>n - 1, \<dots>, 0\<close> of the segment and stops at the first unit to hand out.
\<close>

fun scanStages :: "Stages \<Rightarrow> int \<Rightarrow> nat \<Rightarrow> panic + Unit option" where
  "scanStages s segmentIdx 0 = Inr None"
| "scanStages s segmentIdx (Suc stageIdx) =
     (let unit = \<lparr>Segment = segmentIdx, Stage = int stageIdx\<rparr> in
      case GetState s unit of
        Inl p \<Rightarrow> Inl p
      | Inr segmentState \<Rightarrow>
          if segmentState \<noteq> UnitPending then scanStages s segmentIdx stageIdx
          else case slice_at (stages s) (int stageIdx) of
            Inl p \<Rightarrow> Inl p
          | Inr stage \<Rightarrow>
              if segmentIdx < FirstIndex stage then scanStages s segmentIdx stageIdx
              else case dependenciesCompleted s unit of
                Inl p \<Rightarrow> Inl p
              | Inr ok \<Rightarrow>
                  if \<not> ok then scanStages s segmentIdx stageIdx
                  else Inr (Some unit))"

text \<open>
  The outer loop of \<open>NextJob\<close>, from \<open>segmentIdx\<close> on.  The result is the unit found, if
  any, and the matrix as grown on the way.
\<close>

function findJob :: "Stages \<Rightarrow> int \<Rightarrow> panic + (Unit option \<times> Stages)" where
  "findJob s segmentIdx =
     (let s1 = (if int (length (segmentStates s)) \<le> segmentIdx - segmentOffset s
                then growSegments s else s)
      in if segmentIdx > LastIndex (segmenter s1) then Inr (None, s1)
         else case scanStages s1 segmentIdx (length (stages s1)) of
            Inl p \<Rightarrow> Inl p
          | Inr (Some unit) \<Rightarrow> Inr (Some unit, s1)
          | Inr None \<Rightarrow> findJob s1 (segmentIdx + 1))"
  by pat_completeness auto
termination
  apply (relation "measure (\<lambda>(s, segmentIdx). nat (LastIndex (segmenter s) + 1 - segmentIdx))")
   apply simp
  apply (auto simp: growSegments_def Let_def split: if_splits)
  done

declare findJob.simps [simp del]

text \<open>
  \<open>NextJob\<close> returns the unit and the range of its segment, or the zero \<open>Unit\<close> and \<open>nil\<close>.
\<close>

definition Stages_NextJob :: "Stages \<Rightarrow> panic + ((Unit \<times> Range option) \<times> Stages)" where
  "Stages_NextJob s =
     (case findJob s (FirstIndex (segmenter s)) of
        Inl p \<Rightarrow> Inl p
      | Inr (None, s1) \<Rightarrow> Inr ((\<lparr>Segment = 0, Stage = 0\<rparr>, None), s1)
      | Inr (Some unit, s1) \<Rightarrow>
          (case markSegmentScheduled s1 unit of
             Inl p \<Rightarrow> Inl p
           | Inr s2 \<Rightarrow> Inr ((unit, RangeAt (segmenter s2) (Segment unit)), s2)))"

text \<open>
  The matrix read directly: \<open>cellAt s seg stage\<close> is the state in the row of segment
  \<open>seg\<close> (row \<open>seg - segmentOffset\<close>) at column \<open>stage\<close>, if there is such a cell.
\<close>

definition cellAt :: "Stages \<Rightarrow> int \<Rightarrow> int \<Rightarrow> UnitState option" where
  "cellAt s seg stage =
     (if segmentOffset s \<le> seg \<and> seg - segmentOffset s < int (length (segmentStates s))
         \<and> 0 \<le> stage
         \<and> stage < int (length (segmentStates s ! nat (seg - segmentOffset s)))
      then Some (segmentStates s ! nat (seg - segmentOffset s) ! nat stage)
      else None)"

definition stateIs :: "Stages \<Rightarrow> int \<Rightarrow> int \<Rightarrow> UnitState \<Rightarrow> bool" where
  "stateIs s seg stage st \<longleftrightarrow> cellAt s seg stage = Some st"

text \<open>
  The dependencies of a unit in the spec's words: the unit is in its stage's first
  segment, or its stage is 0, or every lower stage of the previous segment is completed.
\<close>

definition spec_dependenciesCompleted :: "Stages \<Rightarrow> Unit \<Rightarrow> bool" where
  "spec_dependenciesCompleted s u \<longleftrightarrow>
     Segment u = FirstIndex (stages s ! nat (Stage u))
     \<or> Stage u = 0
     \<or> (\<forall>i\<in>{0..<Stage u}. stateIs s (Segment u - 1) i UnitCompleted)"

text \<open>
  The same with the first test as the code has it: the unit's segment is not above its
  stage's first index.
\<close>

definition depsCompleted :: "Stages \<Rightarrow> Unit \<Rightarrow> bool" where
  "depsCompleted s u \<longleftrightarrow>
     Segment u \<le> FirstIndex (stages s ! nat (Stage u))
     \<or> Stage u = 0
     \<or> (\<forall>i\<in>{0..<Stage u}. stateIs s (Segment u - 1) i UnitCompleted)"

text \<open>
  A unit can be handed out when its cell is pending, its stage has started and its
  dependencies are completed.
\<close>

definition eligible :: "Stages \<Rightarrow> Unit \<Rightarrow> bool" where
  "eligible s u \<longleftrightarrow>
     stateIs s (Segment u) (Stage u) UnitPending
     \<and> FirstIndex (stages s ! nat (Stage u)) \<le> Segment u
     \<and> depsCompleted s u"

text \<open>The matrix with the cell of \<open>u\<close> set to scheduled.\<close>

definition scheduledAt :: "Stages \<Rightarrow> Unit \<Rightarrow> Stages" where
  "scheduledAt g u =
     g\<lparr>segmentStates :=
         (segmentStates g)[nat (Segment u - segmentOffset g)
            := (segmentStates g ! nat (Segment u - segmentOffset g))
                 [nat (Stage u) := UnitScheduled]]\<rparr>"

text \<open>The order of the scan: segments upwards, and within a segment stages downwards.\<close>

definition scannedBefore :: "Unit \<Rightarrow> Unit \<Rightarrow> bool" where
  "scannedBefore v u \<longleftrightarrow>
     Segment v < Segment u \<or> (Segment v = Segment u \<and> Stage u < Stage v)"

text \<open>\<open>g\<close> is \<open>s\<close> with rows of pending cells appended by \<open>growSegments\<close>.\<close>

definition grownFrom :: "Stages \<Rightarrow> Stages \<Rightarrow> bool" where
  "grownFrom s g \<longleftrightarrow>
     segmenter g = segmenter s \<and> stages g = stages s \<and> segmentOffset g = segmentOffset s
     \<and> (\<exists>k. segmentStates g
            = segmentStates s @ replicate k (replicate (length (stages s)) UnitPending))"

text \<open>
  What the inner loop finds at a unit: it passes over the unit (its state is not
  pending, or its stage has not started, or its dependencies are not completed), or it
  hands the unit out.
\<close>

definition skipped :: "Stages \<Rightarrow> Unit \<Rightarrow> bool" where
  "skipped s v \<longleftrightarrow>
     (\<exists>st. GetState s v = Inr st \<and> st \<noteq> UnitPending)
     \<or> Segment v < FirstIndex (stages s ! nat (Stage v))
     \<or> (FirstIndex (stages s ! nat (Stage v)) \<le> Segment v
        \<and> dependenciesCompleted s v = Inr False)"

definition accepted :: "Stages \<Rightarrow> Unit \<Rightarrow> bool" where
  "accepted s v \<longleftrightarrow>
     GetState s v = Inr UnitPending
     \<and> FirstIndex (stages s ! nat (Stage v)) \<le> Segment v
     \<and> dependenciesCompleted s v = Inr True"

text \<open>
  A matrix is well formed when the scan starts inside or right at the end of it, every
  row has a cell for every stage, and no stage starts before the first segment.
\<close>

definition wfStages :: "Stages \<Rightarrow> bool" where
  "wfStages s \<longleftrightarrow>
     segmentOffset s \<le> FirstIndex (segmenter s)
     \<and> FirstIndex (segmenter s) - segmentOffset s \<le> int (length (segmentStates s))
     \<and> list_all (\<lambda>row. length row = length (stages s)) (segmentStates s)
     \<and> list_all (\<lambda>stage. FirstIndex (segmenter s) \<le> FirstIndex stage) (stages s)"

text \<open>The invariant of the outer loop at \<open>segmentIdx = idx\<close>.\<close>

definition scanInv :: "Stages \<Rightarrow> int \<Rightarrow> bool" where
  "scanInv s idx \<longleftrightarrow>
     segmentOffset s \<le> FirstIndex (segmenter s) \<and> FirstIndex (segmenter s) \<le> idx
     \<and> idx - segmentOffset s \<le> int (length (segmentStates s))
     \<and> list_all (\<lambda>row. length row = length (stages s)) (segmentStates s)
     \<and> list_all (\<lambda>stage. FirstIndex (segmenter s) \<le> FirstIndex stage) (stages s)"

text \<open>
  A worked example: three stages over the segments 0 to 4 of width 10, all starting at
  segment 0, and an empty matrix.
\<close>

definition tenBlocks :: "int \<Rightarrow> Range option" where
  "tenBlocks i = Some \<lparr>StartBlock = word_of_int (i * 10), ExclusiveEndBlock = word_of_int (i * 10 + 10)\<rparr>"

definition fiveSegments :: SegmenterView where
  "fiveSegments = \<lparr>FirstIndex = 0, LastIndex = 4, RangeAt = tenBlocks\<rparr>"

definition threeStages :: Stages where
  "threeStages = \<lparr>segmenter = fiveSegments, stages = [fiveSegments, fiveSegments, fiveSegments],
                  segmentStates = [], segmentOffset = 0\<rparr>"

text \<open>
  Two matrices outside the well-formed ones: the scan starts at segment 2 of an empty
  matrix whose offset is 0, and a third stage that starts at segment 3 in a matrix of
  two pending rows.
\<close>

definition lateStart :: Stages where
  "lateStart = threeStages\<lparr>segmenter := fiveSegments\<lparr>FirstIndex := 2\<rparr>\<rparr>"

definition lateStage :: Stages where
  "lateStage = threeStages\<lparr>stages := [fiveSegments, fiveSegments, fiveSegments\<lparr>FirstIndex := 3\<rparr>],
                           segmentStates := [[UnitPending, UnitPending, UnitPending],
                                             [UnitPending, UnitPending, UnitPending]]\<rparr>"

section \<open>Properties of the bytes meter\<close>

lemma AddBytesWritten_panics_iff: "(\<exists>p. AddBytesWritten b n = Inl p) \<longleftrightarrow> n < 0"
  by (simp add: AddBytesWritten_def)

lemma AddBytesWritten_value:
  "0 \<le> n \<Longrightarrow> \<exists>b'. AddBytesWritten b n = Inr b' \<and> BytesRead b' = BytesRead b
     \<and> BytesWritten b' = BytesWritten b + word_of_int n
     \<and> uint (BytesWritten b') = (uint (BytesWritten b) + n) mod 2 ^ 64"
  by (simp add: AddBytesWritten_def BytesWritten_def BytesRead_def uint_word_ariths
      uint_word_of_int mod_simps)

lemma AddBytesRead_value:
  "\<exists>b'. AddBytesRead b n = Inr b' \<and> BytesWritten b' = BytesWritten b
     \<and> BytesRead b' = BytesRead b + word_of_int n
     \<and> uint (BytesRead b') = (uint (BytesRead b) + n) mod 2 ^ 64"
  by (simp add: AddBytesRead_def BytesWritten_def BytesRead_def uint_word_ariths
      uint_word_of_int mod_simps)

lemma AddBytesRead_decreases:
  "AddBytesRead \<lparr>bytesWritten = 0, bytesRead = 5\<rparr> (- 1) = Inr \<lparr>bytesWritten = 0, bytesRead = 4\<rparr>"
  by (simp add: AddBytesRead_def)

text \<open>
  Claim C10.  \<open>AddBytesWritten n\<close> panics exactly when \<open>n < 0\<close>; otherwise it returns and
  \<open>BytesWritten\<close> has grown by \<open>n\<close> (by exactly \<open>n\<close> as long as the 64-bit counter does not
  overflow, and modulo \<open>2^64\<close> in general) while \<open>BytesRead\<close> is untouched.
  \<open>AddBytesRead n\<close> never panics: it adds \<open>uint64(n)\<close>, so the counter moves by \<open>n\<close> modulo
  \<open>2^64\<close> also for negative \<open>n\<close>, and there is a meter and a negative \<open>n\<close> for which
  \<open>BytesRead\<close> goes down.
\<close>

theorem bytesMeter_add_behaviour:
  "((\<exists>p. AddBytesWritten b n = Inl p) \<longleftrightarrow> n < 0)
   \<and> (0 \<le> n \<longrightarrow> (\<exists>b'. AddBytesWritten b n = Inr b' \<and> BytesRead b' = BytesRead b
          \<and> uint (BytesWritten b') = (uint (BytesWritten b) + n) mod 2 ^ 64
          \<and> (uint (BytesWritten b) + n < 2 ^ 64 \<longrightarrow>
               uint (BytesWritten b') = uint (BytesWritten b) + n)))
   \<and> (\<exists>b'. AddBytesRead b n = Inr b' \<and> BytesWritten b' = BytesWritten b
          \<and> uint (BytesRead b') = (uint (BytesRead b) + n) mod 2 ^ 64)
   \<and> (\<exists>b0 m b1. m < 0 \<and> AddBytesRead b0 m = Inr b1 \<and> BytesRead b1 < BytesRead b0)"
proof (intro conjI impI)
  show "(\<exists>p. AddBytesWritten b n = Inl p) \<longleftrightarrow> n < 0"
    by (rule AddBytesWritten_panics_iff)
next
  assume n: "0 \<le> n"
  from AddBytesWritten_value [OF n, of b] obtain b' where
    b': "AddBytesWritten b n = Inr b'" "BytesRead b' = BytesRead b"
      "uint (BytesWritten b') = (uint (BytesWritten b) + n) mod 2 ^ 64"
    by blast
  have "uint (BytesWritten b) + n < 2 ^ 64 \<longrightarrow> uint (BytesWritten b') = uint (BytesWritten b) + n"
    using b'(3) n by simp
  with b' show "\<exists>b'. AddBytesWritten b n = Inr b' \<and> BytesRead b' = BytesRead b
          \<and> uint (BytesWritten b') = (uint (BytesWritten b) + n) mod 2 ^ 64
          \<and> (uint (BytesWritten b) + n < 2 ^ 64 \<longrightarrow>
               uint (BytesWritten b') = uint (BytesWritten b) + n)"
    by blast
next
  show "\<exists>b'. AddBytesRead b n = Inr b' \<and> BytesWritten b' = BytesWritten b
          \<and> uint (BytesRead b') = (uint (BytesRead b) + n) mod 2 ^ 64"
    using AddBytesRead_value [of b n] by blast
next
  have "(- 1 :: int) < 0 \<and> AddBytesRead \<lparr>bytesWritten = 0, bytesRead = 5\<rparr> (- 1)
          = Inr \<lparr>bytesWritten = 0, bytesRead = 4\<rparr>
        \<and> BytesRead \<lparr>bytesWritten = 0, bytesRead = 4\<rparr> < BytesRead \<lparr>bytesWritten = 0, bytesRead = 5\<rparr>"
    by (simp add: AddBytesRead_decreases BytesRead_def)
  then show "\<exists>b0 m b1. m < 0 \<and> AddBytesRead b0 m = Inr b1 \<and> BytesRead b1 < BytesRead b0"
    by blast
qed

theorem bytesMeter_add_behaviour_witness:
  "AddBytesWritten \<lparr>bytesWritten = 7, bytesRead = 5\<rparr> 3 = Inr \<lparr>bytesWritten = 10, bytesRead = 5\<rparr>
   \<and> uint (BytesWritten \<lparr>bytesWritten = 10, bytesRead = 5\<rparr>) = 7 + 3
   \<and> AddBytesWritten \<lparr>bytesWritten = 7, bytesRead = 5\<rparr> (- 3) = Inl NegativeValue"
  using bytesMeter_add_behaviour [of "\<lparr>bytesWritten = 7, bytesRead = 5\<rparr>" 3]
    bytesMeter_add_behaviour [of "\<lparr>bytesWritten = 7, bytesRead = 5\<rparr>" "- 3"]
  by (simp add: AddBytesWritten_def BytesWritten_def)
section \<open>Properties of the Segmenter\<close>


lemma base_eq: "(b0::u64) - b0 mod I = (b0 div I) * I"
  by (metis add_diff_cancel_right' div_mult_mod_eq)

lemma uint_word_of_int_id: "0 \<le> x \<Longrightarrow> x < 2 ^ 64 \<Longrightarrow> uint (word_of_int x :: u64) = x"
  by (simp add: uint_word_of_int)

lemma int_div_mono: "(a::int) \<le> b \<Longrightarrow> 0 \<le> c \<Longrightarrow> a div c \<le> b div c"
  by (cases "c = 0") (simp_all add: zdiv_mono1)

lemma int_div_mult_le: "(0::int) \<le> q \<Longrightarrow> 0 \<le> c \<Longrightarrow> (q div c) * c \<le> q"
proof (cases "c = 0")
  case True
  assume "0 \<le> q" then show ?thesis using True by simp
next
  case False
  assume "0 \<le> c" with False have "0 \<le> q mod c" by simp
  moreover have "q = (q div c) * c + q mod c" by simp
  ultimately show ?thesis by linarith
qed

lemma sint_le_uint: "sint (w::u64) \<le> uint w"
proof -
  have "- (2 ^ 63) \<le> uint w"
    by (rule order_trans [of _ 0]) simp_all
  then show ?thesis
    by (simp add: sint_uint signed_take_bit_int_less_eq_self_iff)
qed

lemma valid_index_bound:
  fixes I b0 bN :: u64
  assumes le: "b0 \<le> bN" and k: "k < sint (bN div I - b0 div I + 1)"
  shows "uint b0 div uint I + k \<le> uint bN div uint I" and "k < 2 ^ 63"
proof -
  let ?w = "bN div I - b0 div I + 1"
  have a_le: "uint b0 div uint I \<le> uint bN div uint I"
    using le by (simp add: word_le_def int_div_mono)
  have "b0 div I \<le> bN div I"
    using a_le by (simp add: word_le_def uint_div)
  then have d: "uint (bN div I - b0 div I) = uint bN div uint I - uint b0 div uint I"
    by (simp add: uint_minus_simple_alt uint_div)
  have "uint ?w = (uint (bN div I - b0 div I) + 1) mod 2 ^ 64"
    by (simp add: uint_word_ariths)
  then have "uint ?w = (uint bN div uint I - uint b0 div uint I + 1) mod 2 ^ 64"
    by (simp only: d)
  also have "\<dots> \<le> uint bN div uint I - uint b0 div uint I + 1"
    using a_le by (intro zmod_le_nonneg_dividend) simp
  finally have "uint ?w \<le> uint bN div uint I - uint b0 div uint I + 1" .
  moreover have "sint ?w \<le> uint ?w"
    by (rule sint_le_uint)
  ultimately show "uint b0 div uint I + k \<le> uint bN div uint I"
    using k by linarith
  have "sint ?w < 2 ^ 63"
    using sint_lt [of ?w] by simp
  then show "k < 2 ^ 63" using k by linarith
qed

lemma seg_start_uint:
  fixes I b0 bN :: u64
  assumes "0 \<le> k" and "uint b0 div uint I + k \<le> uint bN div uint I"
  shows "uint ((b0 div I) * I + word_of_int k * I) = (uint b0 div uint I + k) * uint I"
proof -
  let ?x = "(uint b0 div uint I + k) * uint I"
  have "?x \<le> (uint bN div uint I) * uint I"
    using assms by (intro mult_right_mono) simp_all
  also have "\<dots> \<le> uint bN"
    by (rule int_div_mult_le) simp_all
  also have "\<dots> < 2 ^ 64" using uint_lt2p [of bN] by simp
  finally have lt: "?x < 2 ^ 64" .
  have "0 \<le> uint b0 div uint I" by (simp add: pos_imp_zdiv_nonneg_iff div_int_pos_iff)
  then have ge: "0 \<le> ?x" using assms by simp
  have "(b0 div I) * I + word_of_int k * I = (word_of_int ?x :: u64)"
    by (simp add: uint_div [symmetric] algebra_simps)
  then show ?thesis using uint_word_of_int_id [OF ge lt] by simp
qed

lemma sint_word_of_int_id: "0 \<le> k \<Longrightarrow> k < 2 ^ 63 \<Longrightarrow> sint (word_of_int k :: u64) = k"
  by (simp add: sint_uint uint_word_of_int signed_take_bit_int_eq_self take_bit_int_eq_self)

lemma seg_start_index:
  fixes I b0 bN :: u64
  assumes I: "I \<noteq> 0" and k0: "0 \<le> k" and k63: "k < 2 ^ 63"
    and le: "uint b0 div uint I + k \<le> uint bN div uint I"
  shows "sint (((b0 div I) * I + word_of_int k * I) div I - b0 div I) = k"
proof -
  let ?st = "(b0 div I) * I + word_of_int k * I"
  have uI: "uint I \<noteq> 0" using I by (simp add: uint_0_iff)
  have "uint (?st div I) = ((uint b0 div uint I + k) * uint I) div uint I"
    by (simp only: uint_div seg_start_uint [OF k0 le])
  also have "\<dots> = uint b0 div uint I + k" using uI by simp
  finally have "uint (?st div I) = uint (b0 div I) + k" by (simp add: uint_div)
  then have "word_of_int (uint (?st div I)) = (word_of_int (uint (b0 div I) + k) :: u64)"
    by simp
  then have "?st div I = b0 div I + word_of_int k"
    by simp
  then show ?thesis using sint_word_of_int_id [OF k0 k63] by simp
qed

lemma uint_min: "uint (min (x::u64) y) = min (uint x) (uint y)"
  by (simp add: min_def word_le_def)

lemma seg_upper_uint:
  fixes I b0 bN :: u64
  assumes k0: "0 \<le> k" and le: "uint b0 div uint I + k \<le> uint bN div uint I"
    and nov: "uint bN + uint I < 2 ^ 64"
  shows "uint ((b0 div I) * I + (word_of_int k + 1) * I) = (uint b0 div uint I + k + 1) * uint I"
proof -
  let ?x = "(uint b0 div uint I + k) * uint I"
  have st: "uint ((b0 div I) * I + word_of_int k * I) = ?x"
    by (rule seg_start_uint [OF k0 le])
  have "?x \<le> (uint bN div uint I) * uint I"
    using le by (intro mult_right_mono) simp_all
  also have "\<dots> \<le> uint bN"
    by (rule int_div_mult_le) simp_all
  finally have lt: "?x + uint I < 2 ^ 64" using nov by linarith
  have "0 \<le> uint b0 div uint I" by (simp add: pos_imp_zdiv_nonneg_iff div_int_pos_iff)
  then have ge: "0 \<le> ?x + uint I" using k0 by simp
  have "(b0 div I) * I + (word_of_int k + 1) * I = (word_of_int (?x + uint I) :: u64)"
    by (simp add: uint_div [symmetric] algebra_simps)
  then have "uint ((b0 div I) * I + (word_of_int k + 1) * I) = ?x + uint I"
    using uint_word_of_int_id [OF ge lt] by simp
  then show ?thesis by (simp add: algebra_simps)
qed




lemma NewSegmenter_Inr:
  "NewSegmenter I b0 bN = Inr s \<Longrightarrow>
     I \<noteq> 0 \<and> s = \<lparr>interval = I, initialBlock = b0, exclusiveEndBlock = bN,
                     count = sint (bN div I - b0 div I + 1)\<rparr>"
  by (auto simp: NewSegmenter_def computeCount_def Let_def split: if_splits)

lemma Range_first:
  assumes "NewSegmenter I b0 bN = Inr s" and "b0 \<le> bN"
  shows "Segmenter_Range s 0 = rangePtr (NewRange b0 (min ((b0 div I) * I + I) bN))"
  using NewSegmenter_Inr [OF assms(1)] assms(2)
  by (simp add: Segmenter_Range_def firstRange_def Let_def base_eq not_less [symmetric])

lemma Range_later:
  assumes "NewSegmenter I b0 bN = Inr s" and "0 < k" and "k < Count s"
  shows "Segmenter_Range s k
    = rangePtr (NewRange ((b0 div I) * I + word_of_int k * I)
                 (min ((b0 div I) * I + (word_of_int k + 1) * I) bN))"
  using NewSegmenter_Inr [OF assms(1)] assms(2,3)
  by (simp add: Segmenter_Range_def rangeFromBegin_def Count_def Let_def base_eq algebra_simps)

lemma rangePtr_NewRange_Some:
  "rangePtr (NewRange a b) = Inr (Some r) \<longleftrightarrow> a < b \<and> r = \<lparr>StartBlock = a, ExclusiveEndBlock = b\<rparr>"
  by (auto simp: rangePtr_def NewRange_def)

lemma rangePtr_NewRange_invalid:
  "b \<le> a \<Longrightarrow> rangePtr (NewRange a b) = Inl InvalidRange"
  by (simp add: rangePtr_def NewRange_def)

lemma rangePtr_NewRange_valid:
  "a < b \<Longrightarrow> rangePtr (NewRange a b) = Inr (Some \<lparr>StartBlock = a, ExclusiveEndBlock = b\<rparr>)"
  by (simp add: rangePtr_def NewRange_def)

lemma first_upper_above:
  fixes I b0 bN :: u64
  assumes I: "I \<noteq> 0" and lt: "b0 < bN" and nov: "uint bN + uint I < 2 ^ 64"
  shows "uint ((b0 div I) * I + I) = (uint b0 div uint I) * uint I + uint I"
    and "b0 < min ((b0 div I) * I + I) bN"
proof -
  have uI: "0 < uint I" using I by (simp add: word_neq_0_conv word_less_def)
  have le0: "uint b0 div uint I + 0 \<le> uint bN div uint I"
    using lt by (simp add: word_less_def int_div_mono)
  have "uint ((b0 div I) * I + (word_of_int 0 + 1) * I) = (uint b0 div uint I + 0 + 1) * uint I"
    by (rule seg_upper_uint [OF order_refl le0 nov])
  then show up: "uint ((b0 div I) * I + I) = (uint b0 div uint I) * uint I + uint I"
    by (simp add: algebra_simps)
  have "uint b0 = (uint b0 div uint I) * uint I + uint b0 mod uint I" by simp
  moreover have "uint b0 mod uint I < uint I" using uI by simp
  ultimately have "uint b0 < (uint b0 div uint I) * uint I + uint I" by linarith
  with up have "b0 < (b0 div I) * I + I" by (simp add: word_less_def)
  with lt show "b0 < min ((b0 div I) * I + I) bN" by simp
qed


lemma later_bounds:
  fixes I b0 bN :: u64
  assumes new: "NewSegmenter I b0 bN = Inr s" and le: "b0 \<le> bN"
    and k0: "0 \<le> k" and kc: "k < Count s"
  shows "uint ((b0 div I) * I + word_of_int k * I) = (uint b0 div uint I) * uint I + k * uint I"
    and "(uint b0 div uint I) * uint I + k * uint I \<le> uint bN"
    and "sint (((b0 div I) * I + word_of_int k * I) div I - b0 div I) = k"
proof -
  note n = NewSegmenter_Inr [OF new]
  from n kc have kc': "k < sint (bN div I - b0 div I + 1)" by (simp add: Count_def)
  note b = valid_index_bound [OF le kc']
  show st: "uint ((b0 div I) * I + word_of_int k * I) = (uint b0 div uint I) * uint I + k * uint I"
    using seg_start_uint [OF k0 b(1)] by (simp add: algebra_simps)
  have "(uint b0 div uint I + k) * uint I \<le> (uint bN div uint I) * uint I"
    using b(1) by (intro mult_right_mono) simp_all
  also have "\<dots> \<le> uint bN" by (rule int_div_mult_le) simp_all
  finally show "(uint b0 div uint I) * uint I + k * uint I \<le> uint bN"
    by (simp add: algebra_simps)
  from n have I: "I \<noteq> 0" by simp
  show "sint (((b0 div I) * I + word_of_int k * I) div I - b0 div I) = k"
    by (rule seg_start_index [OF I k0 b(2) b(1)])
qed

lemma later_upper_above:
  fixes I b0 bN :: u64
  assumes new: "NewSegmenter I b0 bN = Inr s" and le: "b0 \<le> bN"
    and k0: "0 \<le> k" and kc: "k < Count s"
    and nov: "uint bN + uint I < 2 ^ 64"
    and below: "(uint b0 div uint I) * uint I + k * uint I < uint bN"
  shows "uint (min ((b0 div I) * I + (word_of_int k + 1) * I) bN)
           = min ((uint b0 div uint I) * uint I + (k + 1) * uint I) (uint bN)"
    and "(b0 div I) * I + word_of_int k * I < min ((b0 div I) * I + (word_of_int k + 1) * I) bN"
proof -
  note n = NewSegmenter_Inr [OF new]
  from n kc have kc': "k < sint (bN div I - b0 div I + 1)" by (simp add: Count_def)
  note b = valid_index_bound [OF le kc']
  from n have uI: "0 < uint I" by (simp add: word_neq_0_conv word_less_def)
  have up: "uint ((b0 div I) * I + (word_of_int k + 1) * I) = (uint b0 div uint I + k + 1) * uint I"
    by (rule seg_upper_uint [OF k0 b(1) nov])
  then show "uint (min ((b0 div I) * I + (word_of_int k + 1) * I) bN)
           = min ((uint b0 div uint I) * uint I + (k + 1) * uint I) (uint bN)"
    by (simp add: uint_min algebra_simps)
  have st: "uint ((b0 div I) * I + word_of_int k * I) = (uint b0 div uint I) * uint I + k * uint I"
    by (rule later_bounds(1) [OF new le k0 kc])
  have "uint ((b0 div I) * I + word_of_int k * I) < uint ((b0 div I) * I + (word_of_int k + 1) * I)"
    using up st uI by (simp add: algebra_simps)
  moreover have "uint ((b0 div I) * I + word_of_int k * I) < uint bN"
    using st below by simp
  ultimately show "(b0 div I) * I + word_of_int k * I
      < min ((b0 div I) * I + (word_of_int k + 1) * I) bN"
    by (simp add: word_less_def)
qed

text \<open>
  Claim C4 (as amended).  Take a Segmenter built by \<open>NewSegmenter\<close> whose initial block is
  not above its exclusive end block, and a valid index \<open>0 \<le> k < Count()\<close>.  Whenever
  \<open>Range(k)\<close> is a range, \<open>IndexForBlock(Range(k).StartBlock)\<close> returns \<open>k\<close>.  \<open>Range(k)\<close>
  is a range, and the index comes back, when the initial block is below the end block,
  \<open>bN + I\<close> fits in 64 bits and the segment starts below the end block
  (\<open>floor(b0/I) * I + k * I < bN\<close>).  There is no range, and \<open>NewRange\<close> panics, at the
  last index of a segment-aligned end block (\<open>floor(b0/I) * I + k * I = bN\<close>) and when the
  initial block equals the end block.
\<close>

theorem indexForBlock_of_range_start:
  assumes new: "NewSegmenter I b0 bN = Inr s" and le: "b0 \<le> bN"
    and k0: "0 \<le> k" and kc: "k < Count s"
  shows "(\<forall>r. Segmenter_Range s k = Inr (Some r) \<longrightarrow> IndexForBlock s (StartBlock r) = Inr k)
     \<and> (b0 < bN \<and> uint bN + uint I < 2 ^ 64
          \<and> (uint b0 div uint I) * uint I + k * uint I < uint bN
        \<longrightarrow> (\<exists>r. Segmenter_Range s k = Inr (Some r)) \<and> indexOfRangeStart s k = Inr k)
     \<and> (0 < k \<and> (uint b0 div uint I) * uint I + k * uint I = uint bN
        \<longrightarrow> indexOfRangeStart s k = Inl InvalidRange)
     \<and> (k = 0 \<and> b0 = bN \<longrightarrow> indexOfRangeStart s k = Inl InvalidRange)"
proof -
  note n = NewSegmenter_Inr [OF new]
  then have I: "I \<noteq> 0" and itv: "interval s = I" and ib: "initialBlock s = b0" by simp_all
  let ?st = "(b0 div I) * I + word_of_int k * I"
  let ?en = "min ((b0 div I) * I + (word_of_int k + 1) * I) bN"
  note lb = later_bounds [OF new le k0 kc]
  have idx_st: "IndexForBlock s ?st = Inr k"
    using I itv ib lb(3) by (simp add: IndexForBlock_def)
  have idx_b0: "IndexForBlock s b0 = Inr 0"
    using I itv ib by (simp add: IndexForBlock_def)
  have rng: "Segmenter_Range s k = rangePtr (NewRange (if k = 0 then b0 else ?st)
      (if k = 0 then min ((b0 div I) * I + I) bN else ?en))"
    using Range_first [OF new le] Range_later [OF new _ kc] k0 by (cases "k = 0") auto
  have a: "\<forall>r. Segmenter_Range s k = Inr (Some r) \<longrightarrow> IndexForBlock s (StartBlock r) = Inr k"
    using rng idx_st idx_b0 by (auto simp: rangePtr_NewRange_Some split: if_splits)
  have b: "b0 < bN \<and> uint bN + uint I < 2 ^ 64
          \<and> (uint b0 div uint I) * uint I + k * uint I < uint bN
        \<longrightarrow> (\<exists>r. Segmenter_Range s k = Inr (Some r)) \<and> indexOfRangeStart s k = Inr k"
  proof
    assume h: "b0 < bN \<and> uint bN + uint I < 2 ^ 64
          \<and> (uint b0 div uint I) * uint I + k * uint I < uint bN"
    have "\<exists>r. Segmenter_Range s k = Inr (Some r)"
    proof (cases "k = 0")
      case True
      from first_upper_above(2) [OF I] h have "b0 < min ((b0 div I) * I + I) bN" by blast
      with rng True show ?thesis by (simp add: rangePtr_NewRange_valid)
    next
      case False
      from later_upper_above(2) [OF new le k0 kc] h have "?st < ?en" by blast
      with rng False show ?thesis by (simp add: rangePtr_NewRange_valid)
    qed
    then obtain r where r: "Segmenter_Range s k = Inr (Some r)" by blast
    with a have "IndexForBlock s (StartBlock r) = Inr k" by blast
    with r show "(\<exists>r. Segmenter_Range s k = Inr (Some r)) \<and> indexOfRangeStart s k = Inr k"
      by (auto simp: indexOfRangeStart_def)
  qed
  have c: "0 < k \<and> (uint b0 div uint I) * uint I + k * uint I = uint bN
        \<longrightarrow> indexOfRangeStart s k = Inl InvalidRange"
  proof
    assume h: "0 < k \<and> (uint b0 div uint I) * uint I + k * uint I = uint bN"
    with lb(1) have "?st = bN" by (simp add: word_uint_eq_iff)
    then have "?en \<le> ?st" by simp
    from rangePtr_NewRange_invalid [OF this] rng h
    show "indexOfRangeStart s k = Inl InvalidRange" by (simp add: indexOfRangeStart_def)
  qed
  have d: "k = 0 \<and> b0 = bN \<longrightarrow> indexOfRangeStart s k = Inl InvalidRange"
  proof
    assume h: "k = 0 \<and> b0 = bN"
    then have "min ((b0 div I) * I + I) bN \<le> b0" by simp
    from rangePtr_NewRange_invalid [OF this] rng h
    show "indexOfRangeStart s k = Inl InvalidRange" by (simp add: indexOfRangeStart_def)
  qed
  from a b c d show ?thesis by blast
qed


theorem indexForBlock_of_range_start_witness:
  "NewSegmenter 10 5 35 = Inr \<lparr>interval = 10, initialBlock = 5, exclusiveEndBlock = 35, count = 4\<rparr>
   \<and> (5::u64) \<le> 35 \<and> (0::int) \<le> 3
   \<and> 3 < Count \<lparr>interval = 10, initialBlock = 5, exclusiveEndBlock = 35, count = 4\<rparr>
   \<and> Segmenter_Range \<lparr>interval = 10, initialBlock = 5, exclusiveEndBlock = 35, count = 4\<rparr> 3
       = Inr (Some \<lparr>StartBlock = 30, ExclusiveEndBlock = 35\<rparr>)
   \<and> indexOfRangeStart \<lparr>interval = 10, initialBlock = 5, exclusiveEndBlock = 35, count = 4\<rparr> 3 = Inr 3"
proof -
  let ?s = "\<lparr>interval = 10, initialBlock = 5, exclusiveEndBlock = 35, count = 4\<rparr>"
  have new: "NewSegmenter 10 5 35 = Inr ?s"
    by (simp add: NewSegmenter_def computeCount_def)
  have le: "(5::u64) \<le> 35" by simp
  have k0: "(0::int) \<le> 3" by simp
  have kc: "3 < Count ?s" by (simp add: Count_def)
  have r: "Segmenter_Range ?s 3 = Inr (Some \<lparr>StartBlock = 30, ExclusiveEndBlock = 35\<rparr>)"
    by (simp add: Segmenter_Range_def rangeFromBegin_def NewRange_def rangePtr_def)
  have h: "(5::u64) < 35 \<and> uint (35::u64) + uint (10::u64) < 2 ^ 64
      \<and> (uint (5::u64) div uint (10::u64)) * uint (10::u64) + 3 * uint (10::u64) < uint (35::u64)"
    by simp
  from indexForBlock_of_range_start [OF new le k0 kc] h
  have "indexOfRangeStart ?s 3 = Inr 3" by blast
  with new le k0 kc r show ?thesis by simp
qed

text \<open>
  Claim C4 as stated ranges over every Segmenter and every valid index.
  \<open>NewSegmenter(10, 7, 5)\<close> has \<open>Count() = 1\<close>, so index 0 is valid, but \<open>firstRange\<close>
  returns \<open>nil\<close> because the end block lies below the initial block, and reading
  \<open>StartBlock\<close> of it is a nil dereference.  \<open>NewSegmenter(10, 0, 30)\<close> has \<open>Count() = 4\<close>,
  and at the valid index 3 \<open>rangeFromBegin\<close> asks \<open>NewRange\<close> for the empty \<open>[30, 30)\<close>.
\<close>

theorem indexForBlock_of_range_start_counterexample:
  "NewSegmenter 10 7 5 = Inr \<lparr>interval = 10, initialBlock = 7, exclusiveEndBlock = 5, count = 1\<rparr>
   \<and> (0::int) < Count \<lparr>interval = 10, initialBlock = 7, exclusiveEndBlock = 5, count = 1\<rparr>
   \<and> Segmenter_Range \<lparr>interval = 10, initialBlock = 7, exclusiveEndBlock = 5, count = 1\<rparr> 0 = Inr None
   \<and> indexOfRangeStart \<lparr>interval = 10, initialBlock = 7, exclusiveEndBlock = 5, count = 1\<rparr> 0
        \<noteq> Inr 0
   \<and> NewSegmenter 10 0 30 = Inr \<lparr>interval = 10, initialBlock = 0, exclusiveEndBlock = 30, count = 4\<rparr>
   \<and> (3::int) < Count \<lparr>interval = 10, initialBlock = 0, exclusiveEndBlock = 30, count = 4\<rparr>
   \<and> indexOfRangeStart \<lparr>interval = 10, initialBlock = 0, exclusiveEndBlock = 30, count = 4\<rparr> 3
        = Inl InvalidRange"
  by (simp add: NewSegmenter_def computeCount_def Count_def Segmenter_Range_def firstRange_def
      rangeFromBegin_def NewRange_def rangePtr_def indexOfRangeStart_def)

text \<open>
  Claim C3 (as amended).  Take a Segmenter built from \<open>(I, b0, bN)\<close> with \<open>b0 < bN\<close>, and
  write \<open>base = floor(b0/I) * I\<close>.  Whenever \<open>Range(0)\<close> is a range it is
  \<open>[b0, min(base + I, bN))\<close>, and whenever \<open>Range(k)\<close> with \<open>0 < k < Count()\<close> is a range it is
  \<open>[base + k * I, min(base + (k+1) * I, bN))\<close>, the bounds computed in \<open>uint64\<close>.  The
  start \<open>base + k * I\<close> is the exact value and is at most \<open>bN\<close>.  When \<open>bN + I\<close> fits in 64
  bits, \<open>Range(0)\<close> is a range, and so is \<open>Range(k)\<close> for every \<open>k\<close> whose segment starts
  below \<open>bN\<close>, with the exact upper bounds.  At the last index of a segment-aligned \<open>bN\<close>
  (\<open>base + k * I = bN\<close>) there is no range: \<open>NewRange\<close> is asked for the empty
  \<open>[bN, bN)\<close> and panics.
\<close>

theorem segmenter_range_formula:
  assumes new: "NewSegmenter I b0 bN = Inr s" and lt: "b0 < bN"
  shows "(\<forall>r. Segmenter_Range s 0 = Inr (Some r) \<longrightarrow>
            StartBlock r = b0 \<and> ExclusiveEndBlock r = min ((b0 div I) * I + I) bN)
       \<and> (uint bN + uint I < 2 ^ 64 \<longrightarrow>
            (\<exists>r. Segmenter_Range s 0 = Inr (Some r) \<and> StartBlock r = b0
               \<and> uint (ExclusiveEndBlock r)
                    = min ((uint b0 div uint I) * uint I + uint I) (uint bN)))
       \<and> (\<forall>k. 0 < k \<and> k < Count s \<longrightarrow>
            uint ((b0 div I) * I + word_of_int k * I) = (uint b0 div uint I) * uint I + k * uint I
            \<and> (uint b0 div uint I) * uint I + k * uint I \<le> uint bN
            \<and> (\<forall>r. Segmenter_Range s k = Inr (Some r) \<longrightarrow>
                  StartBlock r = (b0 div I) * I + word_of_int k * I
                  \<and> ExclusiveEndBlock r = min ((b0 div I) * I + (word_of_int k + 1) * I) bN)
            \<and> ((uint b0 div uint I) * uint I + k * uint I = uint bN \<longrightarrow>
                  Segmenter_Range s k = Inl InvalidRange)
            \<and> (uint bN + uint I < 2 ^ 64 \<and> (uint b0 div uint I) * uint I + k * uint I < uint bN \<longrightarrow>
                  (\<exists>r. Segmenter_Range s k = Inr (Some r)
                     \<and> uint (StartBlock r) = (uint b0 div uint I) * uint I + k * uint I
                     \<and> uint (ExclusiveEndBlock r)
                          = min ((uint b0 div uint I) * uint I + (k + 1) * uint I) (uint bN))))"
proof (intro conjI allI impI)
  note n = NewSegmenter_Inr [OF new]
  then have I: "I \<noteq> 0" by simp
  have le: "b0 \<le> bN" using lt by simp
  note r0 = Range_first [OF new le]
  fix r
  assume "Segmenter_Range s 0 = Inr (Some r)"
  with r0 have "rangePtr (NewRange b0 (min ((b0 div I) * I + I) bN)) = Inr (Some r)" by simp
  then show "StartBlock r = b0" and "ExclusiveEndBlock r = min ((b0 div I) * I + I) bN"
    by (simp_all add: rangePtr_NewRange_Some)
next
  note n = NewSegmenter_Inr [OF new]
  then have I: "I \<noteq> 0" by simp
  have le: "b0 \<le> bN" using lt by simp
  assume nov: "uint bN + uint I < 2 ^ 64"
  note f = first_upper_above [OF I lt nov]
  from Range_first [OF new le] f(2)
  have "Segmenter_Range s 0
      = Inr (Some \<lparr>StartBlock = b0, ExclusiveEndBlock = min ((b0 div I) * I + I) bN\<rparr>)"
    by (simp add: rangePtr_NewRange_valid)
  moreover have "uint (min ((b0 div I) * I + I) bN)
      = min ((uint b0 div uint I) * uint I + uint I) (uint bN)"
    using f(1) by (simp add: uint_min)
  ultimately show "\<exists>r. Segmenter_Range s 0 = Inr (Some r) \<and> StartBlock r = b0
               \<and> uint (ExclusiveEndBlock r)
                    = min ((uint b0 div uint I) * uint I + uint I) (uint bN)"
    by simp
next
  fix k :: int
  assume k: "0 < k \<and> k < Count s"
  then have k0: "0 \<le> k" and kp: "0 < k" and kc: "k < Count s" by simp_all
  have le: "b0 \<le> bN" using lt by simp
  note lb = later_bounds [OF new le k0 kc]
  note rk = Range_later [OF new kp kc]
  let ?st = "(b0 div I) * I + word_of_int k * I"
  let ?en = "min ((b0 div I) * I + (word_of_int k + 1) * I) bN"
  show "uint ?st = (uint b0 div uint I) * uint I + k * uint I" by (rule lb(1))
  show "(uint b0 div uint I) * uint I + k * uint I \<le> uint bN" by (rule lb(2))
  {
    fix r
    assume "Segmenter_Range s k = Inr (Some r)"
    with rk have "rangePtr (NewRange ?st ?en) = Inr (Some r)" by simp
    then show "StartBlock r = ?st" and "ExclusiveEndBlock r = ?en"
      by (simp_all add: rangePtr_NewRange_Some)
  }
  {
    assume "(uint b0 div uint I) * uint I + k * uint I = uint bN"
    with lb(1) have "?st = bN" by (simp add: word_uint_eq_iff)
    then have "?en \<le> ?st" by simp
    from rangePtr_NewRange_invalid [OF this] rk
    show "Segmenter_Range s k = Inl InvalidRange" by simp
  }
  {
    assume h: "uint bN + uint I < 2 ^ 64 \<and> (uint b0 div uint I) * uint I + k * uint I < uint bN"
    then have nov: "uint bN + uint I < 2 ^ 64"
      and below: "(uint b0 div uint I) * uint I + k * uint I < uint bN" by simp_all
    note u = later_upper_above [OF new le k0 kc nov below]
    from rk u(2) have "Segmenter_Range s k = Inr (Some \<lparr>StartBlock = ?st, ExclusiveEndBlock = ?en\<rparr>)"
      by (simp add: rangePtr_NewRange_valid)
    with lb(1) u(1) show "\<exists>r. Segmenter_Range s k = Inr (Some r)
                     \<and> uint (StartBlock r) = (uint b0 div uint I) * uint I + k * uint I
                     \<and> uint (ExclusiveEndBlock r)
                          = min ((uint b0 div uint I) * uint I + (k + 1) * uint I) (uint bN)"
      by simp
  }
qed

theorem segmenter_range_formula_witness:
  "NewSegmenter 10 5 35 = Inr \<lparr>interval = 10, initialBlock = 5, exclusiveEndBlock = 35, count = 4\<rparr>
   \<and> (5::u64) < 35
   \<and> Segmenter_Range \<lparr>interval = 10, initialBlock = 5, exclusiveEndBlock = 35, count = 4\<rparr> 0
       = Inr (Some \<lparr>StartBlock = 5, ExclusiveEndBlock = 10\<rparr>)
   \<and> (0::int) < 3 \<and> 3 < Count \<lparr>interval = 10, initialBlock = 5, exclusiveEndBlock = 35, count = 4\<rparr>
   \<and> uint (35::u64) + uint (10::u64) < 2 ^ 64
   \<and> Segmenter_Range \<lparr>interval = 10, initialBlock = 5, exclusiveEndBlock = 35, count = 4\<rparr> 3
       = Inr (Some \<lparr>StartBlock = 30, ExclusiveEndBlock = 35\<rparr>)"
proof -
  let ?s = "\<lparr>interval = 10, initialBlock = 5, exclusiveEndBlock = 35, count = 4\<rparr>"
  have new: "NewSegmenter 10 5 35 = Inr ?s"
    by (simp add: NewSegmenter_def computeCount_def)
  have lt: "(5::u64) < 35" by simp
  have kc: "(0::int) < 3 \<and> 3 < Count ?s" by (simp add: Count_def)
  have nov: "uint (35::u64) + uint (10::u64) < 2 ^ 64" by simp
  note th = segmenter_range_formula [OF new lt]
  from th nov obtain r0 where r0: "Segmenter_Range ?s 0 = Inr (Some r0)" by blast
  with th have "StartBlock r0 = 5 \<and> ExclusiveEndBlock r0 = min ((5 div 10) * 10 + 10) 35"
    by blast
  with r0 have a: "Segmenter_Range ?s 0 = Inr (Some \<lparr>StartBlock = 5, ExclusiveEndBlock = 10\<rparr>)"
    by (cases r0) simp
  have below: "(uint (5::u64) div uint (10::u64)) * uint (10::u64) + 3 * uint (10::u64) < uint (35::u64)"
    by simp
  from th kc nov below obtain r3 where r3: "Segmenter_Range ?s 3 = Inr (Some r3)" by blast
  with th kc have "StartBlock r3 = (5 div 10) * 10 + word_of_int 3 * 10
      \<and> ExclusiveEndBlock r3 = min ((5 div 10) * 10 + (word_of_int 3 + 1) * 10) 35"
    by blast
  with r3 have b: "Segmenter_Range ?s 3 = Inr (Some \<lparr>StartBlock = 30, ExclusiveEndBlock = 35\<rparr>)"
    by (cases r3) simp
  show ?thesis using new lt kc nov a b by simp
qed

text \<open>
  Claim C3 as stated puts the end of segment 0 at \<open>min(ceil(b0/I) * I, bN)\<close> and gives a
  range for every index below \<open>Count()\<close>.  With an aligned initial block the code still
  yields a full first segment: for \<open>(10, 0, 35)\<close> \<open>Range(0)\<close> is \<open>[0, 10)\<close>, where the stated
  formula gives the empty \<open>[0, 0)\<close>.  With an aligned end block the last index has no
  range: for \<open>(10, 0, 30)\<close> \<open>Count()\<close> is 4 and \<open>Range(3)\<close> asks \<open>NewRange\<close> for \<open>[30, 30)\<close>.
\<close>

theorem segmenter_first_range_counterexample:
  "NewSegmenter 10 0 35 = Inr \<lparr>interval = 10, initialBlock = 0, exclusiveEndBlock = 35, count = 4\<rparr>
   \<and> (0::u64) < 35
   \<and> Segmenter_Range \<lparr>interval = 10, initialBlock = 0, exclusiveEndBlock = 35, count = 4\<rparr> 0
       = Inr (Some \<lparr>StartBlock = 0, ExclusiveEndBlock = 10\<rparr>)
   \<and> spec_firstRange 10 0 35 = \<lparr>StartBlock = 0, ExclusiveEndBlock = 0\<rparr>
   \<and> Segmenter_Range \<lparr>interval = 10, initialBlock = 0, exclusiveEndBlock = 35, count = 4\<rparr> 0
       \<noteq> Inr (Some (spec_firstRange 10 0 35))
   \<and> NewSegmenter 10 0 30 = Inr \<lparr>interval = 10, initialBlock = 0, exclusiveEndBlock = 30, count = 4\<rparr>
   \<and> (0::int) < 3 \<and> 3 < Count \<lparr>interval = 10, initialBlock = 0, exclusiveEndBlock = 30, count = 4\<rparr>
   \<and> Segmenter_Range \<lparr>interval = 10, initialBlock = 0, exclusiveEndBlock = 30, count = 4\<rparr> 3
       = Inl InvalidRange"
  by (simp add: NewSegmenter_def computeCount_def Count_def Segmenter_Range_def firstRange_def
      rangeFromBegin_def NewRange_def rangePtr_def spec_firstRange_def)

section \<open>Properties of the Squasher\<close>


lemma merged_append: "merged (xs @ ys) = merged xs @ merged ys"
  by (induction xs rule: merged.induct) simp_all

lemma merged_record_event:
  "merged (trace (record_event w e)) = merged (trace w) @ merged [e]"
  by (simp add: record_event_def merged_append)

lemma chain_append: "chain a (ms @ [r]) b \<longleftrightarrow> chain a ms (StartBlock r) \<and> ExclusiveEndBlock r = b"
  by (induction ms arbitrary: a) auto

lemma chain_increasing:
  "chain a ms b \<Longrightarrow> list_all (\<lambda>r. StartBlock r < ExclusiveEndBlock r) ms \<Longrightarrow>
     a \<le> b \<and> sorted_wrt (<) (map StartBlock ms) \<and> (\<forall>r\<in>set ms. a \<le> StartBlock r)"
proof (induction ms arbitrary: a)
  case Nil
  then show ?case by simp
next
  case (Cons r rs)
  from Cons.prems have st: "StartBlock r = a" and ch: "chain (ExclusiveEndBlock r) rs b"
    and v: "StartBlock r < ExclusiveEndBlock r"
    and vs: "list_all (\<lambda>r. StartBlock r < ExclusiveEndBlock r) rs"
    by simp_all
  from Cons.IH [OF ch vs] have ih: "ExclusiveEndBlock r \<le> b"
    "sorted_wrt (<) (map StartBlock rs)" "\<forall>x\<in>set rs. ExclusiveEndBlock r \<le> StartBlock x"
    by simp_all
  show ?case using st v ih by auto
qed

subsection \<open>Preservation through the loops\<close>

lemma mergeAvailablePartials_preserves:
  "mergeAvailablePartials env n s w = (x, s', w') \<Longrightarrow> J s w \<Longrightarrow>
   (\<And>x s w s' w'. mergeIteration env n s w = (x, s', w') \<Longrightarrow> J s w \<Longrightarrow> J s' w') \<Longrightarrow>
   J s' w'"
proof (induction env n s w rule: mergeAvailablePartials.induct)
  case (1 env n s w)
  obtain y s1 w1 where it: "mergeIteration env n s w = (y, s1, w1)"
    by (cases "mergeIteration env n s w") auto
  note i = "1.prems"(3) [OF it "1.prems"(2)]
  show ?case
  proof (cases y)
    case (LoopReturn e)
    with "1.prems" it i show ?thesis by simp
  next
    case LoopBreak
    with "1.prems" it i show ?thesis by simp
  next
    case LoopContinue
    with "1.prems" it have "mergeAvailablePartials env n s1 w1 = (x, s', w')" by simp
    from "1.IH" [OF it [symmetric] LoopContinue refl this i "1.prems"(3)] show ?thesis .
  qed
qed


lemma mergeRanges_preserves:
  "mergeRanges env n s w brs = (x, s', w') \<Longrightarrow> J s w \<Longrightarrow>
   (\<And>x s w s' w'. mergeIteration env n s w = (x, s', w') \<Longrightarrow> J s w \<Longrightarrow> J s' w') \<Longrightarrow>
   J s' w'"
proof (induction brs arbitrary: s w)
  case Nil
  then show ?case by simp
next
  case (Cons br brs)
  obtain y s1 w1 where m: "mergeAvailablePartials env n s w = (y, s1, w1)"
    by (cases "mergeAvailablePartials env n s w") auto
  have j1: "J s1 w1"
    by (rule mergeAvailablePartials_preserves [where J = J, OF m Cons.prems(2)]) (rule Cons.prems(3))
  show ?case
  proof (cases y)
    case None
    with Cons.prems(1) m have "mergeRanges env n s1 w1 brs = (x, s', w')" by simp
    from Cons.IH [OF this j1 Cons.prems(3)] show ?thesis .
  next
    case (Some e)
    with Cons.prems(1) m have "s' = s1 \<and> w' = w1" by (cases e) auto
    with j1 show ?thesis by simp
  qed
qed

lemma cumulateRanges_preserves:
  "cumulateRanges s brs = (x, s') \<Longrightarrow> J s \<Longrightarrow>
   (\<And>s br. br \<in> set brs \<Longrightarrow> J s \<Longrightarrow> J (cumulateBoundedRange s br)) \<Longrightarrow>
   J s'"
proof (induction brs arbitrary: s)
  case Nil
  then show ?case by simp
next
  case (Cons br brs)
  show ?case
  proof (cases "StartBlock br < ModuleInitialBlock (builder s)")
    case True
    with Cons.prems show ?thesis by simp
  next
    case False
    with Cons.prems(1) have c: "cumulateRanges (cumulateBoundedRange s br) brs = (x, s')" by simp
    have j: "J (cumulateBoundedRange s br)" by (rule Cons.prems(3)) (simp_all add: Cons.prems(2))
    show ?thesis by (rule Cons.IH [OF c j]) (rule Cons.prems(3), simp_all)
  qed
qed

lemma squash_preserves:
  assumes run: "squash env n s w r = (x, s', w')" and j: "J s w"
    and cum: "\<And>s br. br \<in> set (split env r (storeSaveInterval s0)) \<Longrightarrow> J s w \<Longrightarrow> J (cumulateBoundedRange s br) w"
    and step: "\<And>x s w s' w'. mergeIteration env n s w = (x, s', w') \<Longrightarrow> J s w \<Longrightarrow> J s' w'"
    and s0: "storeSaveInterval s = storeSaveInterval s0"
  shows "J s' w'"
proof -
  let ?brs = "split env r (storeSaveInterval s)"
  obtain y s1 where c: "cumulateRanges s ?brs = (y, s1)"
    by (cases "cumulateRanges s ?brs") auto
  have j1: "J s1 w"
    by (rule cumulateRanges_preserves [where J = "\<lambda>s. J s w", OF c j]) (rule cum, simp_all add: s0)
  show ?thesis
  proof (cases y)
    case None
    with run c have "mergeRanges env n s1 w ?brs = (x, s', w')" by (simp add: squash_def)
    from mergeRanges_preserves [of env n s1 w ?brs x s' w' J, OF this j1 step] show ?thesis .
  next
    case (Some e)
    with run c have "s' = s1 \<and> w' = w" by (simp add: squash_def)
    with j1 show ?thesis by simp
  qed
qed


subsection \<open>The invariants\<close>

lemma sameConfig_refl: "sameConfig s s"
  by (simp add: sameConfig_def)

lemma sameConfig_trans: "sameConfig s s1 \<Longrightarrow> sameConfig s1 s2 \<Longrightarrow> sameConfig s s2"
  by (simp add: sameConfig_def)

lemma mergeIteration_sameConfig:
  "mergeIteration env n s w = (x, s', w') \<Longrightarrow> sameConfig s s'"
  by (auto simp: mergeIteration_def Let_def sameConfig_def split: if_splits list.splits)

lemma mergeIteration_squashInv:
  "mergeIteration env n s w = (x, s', w') \<Longrightarrow> squashInv n0 s w \<Longrightarrow> squashInv n0 s' w'"
  by (auto simp: mergeIteration_def Let_def squashInv_def merged_record_event chain_append
      split: if_splits list.splits)

lemma mergeIteration_rangesAll:
  "mergeIteration env n s w = (x, s', w') \<Longrightarrow> rangesAll P s w \<Longrightarrow> rangesAll P s' w'"
  by (auto simp: mergeIteration_def Let_def rangesAll_def merged_record_event
      split: if_splits list.splits)

lemma cumulateBoundedRange_sameConfig: "sameConfig s (cumulateBoundedRange s br)"
  by (simp add: cumulateBoundedRange_def sameConfig_def)

lemma cumulateBoundedRange_squashInv:
  "squashInv n0 s w \<Longrightarrow> squashInv n0 (cumulateBoundedRange s br) w"
  by (simp add: cumulateBoundedRange_def squashInv_def sortRanges_def)

lemma cumulateBoundedRange_rangesAll:
  "rangesAll P s w \<Longrightarrow> (StoreInitialBlock (builder s) < ExclusiveEndBlock br \<longrightarrow> P br) \<Longrightarrow>
     rangesAll P (cumulateBoundedRange s br) w"
  by (auto simp: cumulateBoundedRange_def rangesAll_def sortRanges_def list_all_iff)


lemma mergeIteration_runInv:
  "mergeIteration env n s w = (x, s', w') \<Longrightarrow> runInv P n0 s0 s w \<Longrightarrow> runInv P n0 s0 s' w'"
proof -
  assume it: "mergeIteration env n s w = (x, s', w')" and j: "runInv P n0 s0 s w"
  from j have sc: "sameConfig s0 s" and si: "squashInv n0 s w" and ra: "rangesAll P s w"
    by (simp_all add: runInv_def)
  have "sameConfig s0 s'"
    by (rule sameConfig_trans [OF sc mergeIteration_sameConfig [OF it]])
  moreover have "squashInv n0 s' w'" by (rule mergeIteration_squashInv [OF it si])
  moreover have "rangesAll P s' w'" by (rule mergeIteration_rangesAll [OF it ra])
  ultimately show ?thesis by (simp add: runInv_def)
qed

lemma cumulateBoundedRange_runInv:
  assumes "runInv P n0 s0 s w"
    and "StoreInitialBlock (builder s0) < ExclusiveEndBlock br \<longrightarrow> P br"
  shows "runInv P n0 s0 (cumulateBoundedRange s br) w"
proof -
  from assms(1) have sc: "sameConfig s0 s" and si: "squashInv n0 s w" and ra: "rangesAll P s w"
    by (simp_all add: runInv_def)
  from sc have b: "builder s = builder s0" by (simp add: sameConfig_def)
  have "sameConfig s0 (cumulateBoundedRange s br)"
    by (rule sameConfig_trans [OF sc cumulateBoundedRange_sameConfig])
  moreover have "squashInv n0 (cumulateBoundedRange s br) w"
    by (rule cumulateBoundedRange_squashInv [OF si])
  moreover have "rangesAll P (cumulateBoundedRange s br) w"
    by (rule cumulateBoundedRange_rangesAll [OF ra]) (simp add: b assms(2))
  ultimately show ?thesis by (simp add: runInv_def)
qed

lemma squash_runInv:
  assumes run: "squash env n s w r = (x, s', w')" and j: "runInv P n0 s0 s w"
    and P: "\<forall>br\<in>set (split env r (storeSaveInterval s0)).
              StoreInitialBlock (builder s0) < ExclusiveEndBlock br \<longrightarrow> P br"
  shows "runInv P n0 s0 s' w'"
proof (rule squash_preserves [where J = "runInv P n0 s0" and ?s0.0 = s0, OF run j])
  fix s1 br
  assume "br \<in> set (split env r (storeSaveInterval s0))" and "runInv P n0 s0 s1 w"
  then show "runInv P n0 s0 (cumulateBoundedRange s1 br) w"
    using P by (intro cumulateBoundedRange_runInv) auto
next
  fix x s w s' w'
  assume "mergeIteration env n s w = (x, s', w')" "runInv P n0 s0 s w"
  then show "runInv P n0 s0 s' w'" by (rule mergeIteration_runInv)
next
  from j show "storeSaveInterval s = storeSaveInterval s0"
    by (simp add: runInv_def sameConfig_def)
qed

lemma squashAll_runInv:
  "squashAll env n s w rs = (ress, s', w') \<Longrightarrow> runInv P n0 s0 s w \<Longrightarrow>
   \<forall>r\<in>set rs. \<forall>br\<in>set (split env r (storeSaveInterval s0)).
      StoreInitialBlock (builder s0) < ExclusiveEndBlock br \<longrightarrow> P br \<Longrightarrow>
   runInv P n0 s0 s' w'"
proof (induction rs arbitrary: s w ress)
  case Nil
  then show ?case by simp
next
  case (Cons r rs)
  obtain y s1 w1 where sq: "squash env n s w r = (y, s1, w1)"
    by (cases "squash env n s w r") auto
  from Cons.prems(1) sq obtain ys where rest: "squashAll env n s1 w1 rs = (ys, s', w')"
    by (auto split: prod.splits)
  have j1: "runInv P n0 s0 s1 w1"
    by (rule squash_runInv [OF sq Cons.prems(2)]) (use Cons.prems(3) in simp)
  show ?case
    by (rule Cons.IH [OF rest j1]) (use Cons.prems(3) in simp)
qed

lemma NewSquashable_runInv:
  "runInv P n0 (NewSquashable b t I n0) (NewSquashable b t I n0) \<lparr>polls = p, trace = []\<rparr>"
  by (simp add: runInv_def sameConfig_def squashInv_def rangesAll_def NewSquashable_def)



text \<open>
  Claim C1 (as amended).  When a turn of \<open>mergeAvailablePartials\<close> merges the pending
  fragment \<open>r\<close> (it is at the head of the list, starts at \<open>nextExpectedStartBlock\<close>, and
  loading and merging it succeed) and \<open>r\<close> ends at \<open>e\<close> with \<open>e % storeSaveInterval == 0\<close>,
  the next call is \<open>builder.WriteState(e)\<close>, which writes the complete snapshot.  No
  \<open>DeletePartialFile\<close> call is made for such a fragment.  If the write succeeds the
  fragment is popped, and \<open>notifier.Notify(builder.Name, e)\<close> is called exactly when
  \<open>e == targetExclusiveBlock\<close> and a notifier is set; if the write fails, the function
  returns the error with the fragment still pending.
\<close>

theorem merge_on_boundary_writes_state:
  assumes pending: "ranges s = r # rest"
    and nxt: "nextExpectedStartBlock s = StartBlock r"
    and ctx: "\<not> ctxDone env (polls w)"
    and load: "\<not> fails env (trace w) (LoadFrom r)"
    and mrg: "\<not> fails env (trace w @ [Done (LoadFrom r)]) (Merge r)"
    and I: "storeSaveInterval s \<noteq> 0"
    and bnd: "ExclusiveEndBlock r mod storeSaveInterval s = 0"
  shows "\<exists>x s' w'. mergeIteration env notifier s w = (x, s', w')
     \<and> nextExpectedStartBlock s' = ExclusiveEndBlock r
     \<and> (if fails env (trace w @ [Done (LoadFrom r), Done (Merge r)])
              (WriteState (ExclusiveEndBlock r))
        then x = LoopReturn WritingState \<and> ranges s' = r # rest
           \<and> trace w' = trace w @ [Done (LoadFrom r), Done (Merge r),
                                    Failed (WriteState (ExclusiveEndBlock r))]
           \<and> mergeAvailablePartials env notifier s w = (Some WritingState, s', w')
        else x = LoopContinue \<and> ranges s' = rest
           \<and> trace w' = trace w @ [Done (LoadFrom r), Done (Merge r),
                                    Done (WriteState (ExclusiveEndBlock r))]
                @ (if ExclusiveEndBlock r = targetExclusiveBlock s \<and> notifier
                     then [Done (Notify (Name (builder s)) (ExclusiveEndBlock r))] else [])
           \<and> mergeAvailablePartials env notifier s w = mergeAvailablePartials env notifier s' w')"
proof (cases "fails env (trace w @ [Done (LoadFrom r), Done (Merge r)])
              (WriteState (ExclusiveEndBlock r))")
  case True
  from assms True have it: "mergeIteration env notifier s w =
     (LoopReturn WritingState, s\<lparr>nextExpectedStartBlock := ExclusiveEndBlock r\<rparr>,
      \<lparr>polls = polls w + 1,
       trace = trace w @ [Done (LoadFrom r), Done (Merge r),
                          Failed (WriteState (ExclusiveEndBlock r))]\<rparr>)"
    by (simp add: mergeIteration_def Let_def record_event_def)
  show ?thesis using True pending by (simp add: it)
next
  case False
  from assms False have it: "mergeIteration env notifier s w =
     (LoopContinue,
      s\<lparr>nextExpectedStartBlock := ExclusiveEndBlock r, ranges := rest,
         targetReached := (targetReached s \<or> ExclusiveEndBlock r = targetExclusiveBlock s)\<rparr>,
      \<lparr>polls = polls w + 1,
       trace = trace w @ [Done (LoadFrom r), Done (Merge r), Done (WriteState (ExclusiveEndBlock r))]
          @ (if ExclusiveEndBlock r = targetExclusiveBlock s \<and> notifier
               then [Done (Notify (Name (builder s)) (ExclusiveEndBlock r))] else [])\<rparr>)"
    by (simp add: mergeIteration_def Let_def record_event_def)
  show ?thesis using False by (simp add: it)
qed

theorem merge_on_boundary_writes_state_witness:
  "mergeIteration quietEnv True
      ((NewSquashable storeB 200 100 0)\<lparr>ranges := [\<lparr>StartBlock = 0, ExclusiveEndBlock = 100\<rparr>]\<rparr>)
      emptyWorld
    = (LoopContinue, (NewSquashable storeB 200 100 0)\<lparr>nextExpectedStartBlock := 100\<rparr>,
       \<lparr>polls = 1,
        trace = [Done (LoadFrom \<lparr>StartBlock = 0, ExclusiveEndBlock = 100\<rparr>),
                 Done (Merge \<lparr>StartBlock = 0, ExclusiveEndBlock = 100\<rparr>),
                 Done (WriteState 100)]\<rparr>)"
proof -
  let ?r = "\<lparr>StartBlock = 0, ExclusiveEndBlock = 100\<rparr>"
  let ?s = "(NewSquashable storeB 200 100 0)\<lparr>ranges := [?r]\<rparr>"
  have h: "ranges ?s = ?r # []" "nextExpectedStartBlock ?s = StartBlock ?r"
    "\<not> ctxDone quietEnv (polls emptyWorld)"
    "\<not> fails quietEnv (trace emptyWorld) (LoadFrom ?r)"
    "\<not> fails quietEnv (trace emptyWorld @ [Done (LoadFrom ?r)]) (Merge ?r)"
    "storeSaveInterval ?s \<noteq> 0"
    "ExclusiveEndBlock ?r mod storeSaveInterval ?s = 0"
    by (simp_all add: NewSquashable_def quietEnv_def emptyWorld_def)
  from merge_on_boundary_writes_state [OF h, of True]
  obtain x s' w' where "mergeIteration quietEnv True ?s emptyWorld = (x, s', w')" by blast
  then show ?thesis
    by (simp add: mergeIteration_def quietEnv_def emptyWorld_def NewSquashable_def storeB_def
        record_event_def)
qed

text \<open>
  Claim C1 as stated also has the merged \<open>.partial\<close> fragment deleted and the notifier
  called after every merge that ends on a boundary.  With save interval 100 and target
  200, merging \<open>[0, 100)\<close> makes three calls: \<open>LoadFrom\<close>, \<open>Merge\<close> and \<open>WriteState(100)\<close>;
  \<open>DeletePartialFile\<close> is only called on the branch where the end is off the boundary,
  and \<open>Notify\<close> only when the end is the target block.
\<close>

theorem merge_on_boundary_counterexample:
  "(100::u64) mod 100 = 0
   \<and> mergeAvailablePartials quietEnv True
        ((NewSquashable storeB 200 100 0)\<lparr>ranges := [\<lparr>StartBlock = 0, ExclusiveEndBlock = 100\<rparr>]\<rparr>)
        emptyWorld
      = (None, (NewSquashable storeB 200 100 0)\<lparr>nextExpectedStartBlock := 100\<rparr>,
         \<lparr>polls = 2,
          trace = [Done (LoadFrom \<lparr>StartBlock = 0, ExclusiveEndBlock = 100\<rparr>),
                   Done (Merge \<lparr>StartBlock = 0, ExclusiveEndBlock = 100\<rparr>),
                   Done (WriteState 100)]\<rparr>)
   \<and> Done (DeletePartialFile 100)
        \<notin> set [Done (LoadFrom \<lparr>StartBlock = 0, ExclusiveEndBlock = 100\<rparr>),
                 Done (Merge \<lparr>StartBlock = 0, ExclusiveEndBlock = 100\<rparr>),
                 Done (WriteState 100)]
   \<and> Done (Notify ''B'' 100)
        \<notin> set [Done (LoadFrom \<lparr>StartBlock = 0, ExclusiveEndBlock = 100\<rparr>),
                 Done (Merge \<lparr>StartBlock = 0, ExclusiveEndBlock = 100\<rparr>),
                 Done (WriteState 100)]"
  by (simp add: mergeIteration_def quietEnv_def emptyWorld_def NewSquashable_def storeB_def
      record_event_def)



lemma cumulateRanges_sameConfig:
  "cumulateRanges s brs = (x, s') \<Longrightarrow> sameConfig s s'"
proof (rule cumulateRanges_preserves [where J = "sameConfig s"])
  show "sameConfig s s" by (rule sameConfig_refl)
next
  fix s1 br assume "sameConfig s s1"
  then show "sameConfig s (cumulateBoundedRange s1 br)"
    by (rule sameConfig_trans) (rule cumulateBoundedRange_sameConfig)
qed

lemma cumulateRanges_rejects:
  "br \<in> set brs \<Longrightarrow> StartBlock br < ModuleInitialBlock (builder s) \<Longrightarrow>
   \<exists>b s'. cumulateRanges s brs
       = (Some (StartBlockPriorToInitialBlock (name s) b (ModuleInitialBlock (builder s))), s')
     \<and> b \<in> StartBlock ` set brs \<and> b < ModuleInitialBlock (builder s)"
proof (induction brs arbitrary: s)
  case Nil
  then show ?case by simp
next
  case (Cons a brs)
  show ?case
  proof (cases "StartBlock a < ModuleInitialBlock (builder s)")
    case True
    then show ?thesis by auto
  next
    case False
    with Cons.prems have mem: "br \<in> set brs" by auto
    let ?s1 = "cumulateBoundedRange s a"
    have c: "builder ?s1 = builder s" "name ?s1 = name s"
      using cumulateBoundedRange_sameConfig [of s a] by (simp_all add: sameConfig_def)
    from Cons.IH [OF mem, of ?s1] Cons.prems(2) c False show ?thesis by auto
  qed
qed

text \<open>
  Claim C6.  When the split of \<open>r\<close> at the multiples of \<open>storeSaveInterval\<close> contains a
  sub-range that starts below the module's initial block, \<open>squash\<close> returns the error
  about a start block prior to the initial block, and it does so before any call on the
  store: the trace is the one it was given, so nothing was loaded or merged.
\<close>

theorem squash_rejects_start_before_initial_block:
  assumes "br \<in> set (split env r (storeSaveInterval s))"
    and "StartBlock br < ModuleInitialBlock (builder s)"
  shows "\<exists>b s'. squash env notifier s w r
       = (Some (StartBlockPriorToInitialBlock (name s) b (ModuleInitialBlock (builder s))), s', w)
     \<and> b \<in> StartBlock ` set (split env r (storeSaveInterval s))
     \<and> b < ModuleInitialBlock (builder s)"
proof -
  from cumulateRanges_rejects [OF assms] obtain b s' where
    c: "cumulateRanges s (split env r (storeSaveInterval s))
          = (Some (StartBlockPriorToInitialBlock (name s) b (ModuleInitialBlock (builder s))), s')"
    and b: "b \<in> StartBlock ` set (split env r (storeSaveInterval s))"
      "b < ModuleInitialBlock (builder s)"
    by blast
  from c have "squash env notifier s w r
       = (Some (StartBlockPriorToInitialBlock (name s) b (ModuleInitialBlock (builder s))), s', w)"
    by (simp add: squash_def)
  with b show ?thesis by blast
qed

lemma Split_0_100: "Split \<lparr>StartBlock = 0, ExclusiveEndBlock = 100\<rparr> 100
    = [\<lparr>StartBlock = 0, ExclusiveEndBlock = 100\<rparr>]"
  by (simp add: Split_def upt_rec)

theorem squash_rejects_start_before_initial_block_witness:
  "\<lparr>StartBlock = 0, ExclusiveEndBlock = 100\<rparr>
     \<in> set (split quietEnv \<lparr>StartBlock = 0, ExclusiveEndBlock = 100\<rparr>
              (storeSaveInterval (NewSquashable (storeB\<lparr>ModuleInitialBlock := 50\<rparr>) 300 100 50)))
   \<and> StartBlock \<lparr>StartBlock = 0, ExclusiveEndBlock = 100\<rparr>
       < ModuleInitialBlock (builder (NewSquashable (storeB\<lparr>ModuleInitialBlock := 50\<rparr>) 300 100 50))
   \<and> squash quietEnv True (NewSquashable (storeB\<lparr>ModuleInitialBlock := 50\<rparr>) 300 100 50)
        emptyWorld \<lparr>StartBlock = 0, ExclusiveEndBlock = 100\<rparr>
      = (Some (StartBlockPriorToInitialBlock ''B'' 0 50),
         NewSquashable (storeB\<lparr>ModuleInitialBlock := 50\<rparr>) 300 100 50, emptyWorld)"
proof -
  let ?r = "\<lparr>StartBlock = 0, ExclusiveEndBlock = 100\<rparr>"
  let ?s = "NewSquashable (storeB\<lparr>ModuleInitialBlock := 50\<rparr>) 300 100 50"
  have h1: "?r \<in> set (split quietEnv ?r (storeSaveInterval ?s))"
    by (simp add: quietEnv_def NewSquashable_def Split_0_100)
  have h2: "StartBlock ?r < ModuleInitialBlock (builder ?s)"
    by (simp add: NewSquashable_def storeB_def)
  have eq: "squash quietEnv True ?s emptyWorld ?r
      = (Some (StartBlockPriorToInitialBlock ''B'' 0 50), ?s, emptyWorld)"
    by (simp add: squash_def quietEnv_def NewSquashable_def storeB_def Split_0_100)
  from squash_rejects_start_before_initial_block [OF h1 h2, of True emptyWorld]
  show ?thesis by (intro conjI h1 h2 eq)
qed



lemma cumulateRanges_skip:
  assumes d: "ExclusiveEndBlock br \<le> StoreInitialBlock (builder s0)"
    and m: "ModuleInitialBlock (builder s0) \<le> StartBlock br"
  shows "builder s = builder s0 \<Longrightarrow> cumulateRanges s (xs @ br # ys) = cumulateRanges s (xs @ ys)"
proof (induction xs arbitrary: s)
  case Nil
  from m have "\<not> StartBlock br < ModuleInitialBlock (builder s0)" by simp
  with d Nil show ?case by (simp add: cumulateBoundedRange_def)
next
  case (Cons a xs)
  have "builder (cumulateBoundedRange s a) = builder s0"
    using cumulateBoundedRange_sameConfig [of s a] Cons.prems by (simp add: sameConfig_def)
  from Cons.IH [OF this] show ?case by simp
qed


lemma squash_keptInv:
  assumes run: "squash env n s w r = (x, s', w')" and j: "keptInv P s0 s w"
    and P: "\<forall>br\<in>set (split env r (storeSaveInterval s0)).
              StoreInitialBlock (builder s0) < ExclusiveEndBlock br \<longrightarrow> P br"
  shows "keptInv P s0 s' w'"
proof (rule squash_preserves [where J = "keptInv P s0" and ?s0.0 = s0, OF run j])
  fix s1 br
  assume br: "br \<in> set (split env r (storeSaveInterval s0))" and k: "keptInv P s0 s1 w"
  from k have sc: "sameConfig s0 s1" and ra: "rangesAll P s1 w" by (simp_all add: keptInv_def)
  from sc have b: "builder s1 = builder s0" by (simp add: sameConfig_def)
  have "sameConfig s0 (cumulateBoundedRange s1 br)"
    by (rule sameConfig_trans [OF sc cumulateBoundedRange_sameConfig])
  moreover have "rangesAll P (cumulateBoundedRange s1 br) w"
    by (rule cumulateBoundedRange_rangesAll [OF ra]) (use P br b in simp)
  ultimately show "keptInv P s0 (cumulateBoundedRange s1 br) w" by (simp add: keptInv_def)
next
  fix x s w s' w'
  assume it: "mergeIteration env n s w = (x, s', w')" and k: "keptInv P s0 s w"
  from k have sc: "sameConfig s0 s" and ra: "rangesAll P s w" by (simp_all add: keptInv_def)
  have "sameConfig s0 s'" by (rule sameConfig_trans [OF sc mergeIteration_sameConfig [OF it]])
  moreover have "rangesAll P s' w'" by (rule mergeIteration_rangesAll [OF it ra])
  ultimately show "keptInv P s0 s' w'" by (simp add: keptInv_def)
next
  from j show "storeSaveInterval s = storeSaveInterval s0"
    by (simp add: keptInv_def sameConfig_def)
qed



lemma loaded_append: "loaded (xs @ ys) = loaded xs @ loaded ys"
  by (induction xs rule: loaded.induct) simp_all

lemma loaded_record_event:
  "loaded (trace (record_event w e)) = loaded (trace w) @ loaded [e]"
  by (simp add: record_event_def loaded_append)

lemma mergeIteration_loaded:
  "mergeIteration env n s w = (x, s', w') \<Longrightarrow> list_all P (ranges s) \<Longrightarrow>
     list_all P (loaded (trace w)) \<Longrightarrow> list_all P (loaded (trace w'))"
  by (auto simp: mergeIteration_def Let_def loaded_record_event split: if_splits list.splits)

lemma squash_untouchedInv:
  assumes run: "squash env n s w r = (x, s', w')" and j: "untouchedInv P s0 s w"
    and P: "\<forall>br\<in>set (split env r (storeSaveInterval s0)).
              StoreInitialBlock (builder s0) < ExclusiveEndBlock br \<longrightarrow> P br"
  shows "untouchedInv P s0 s' w'"
proof (rule squash_preserves [where J = "untouchedInv P s0" and ?s0.0 = s0, OF run j])
  fix s1 br
  assume br: "br \<in> set (split env r (storeSaveInterval s0))" and k: "untouchedInv P s0 s1 w"
  from k have sc: "sameConfig s0 s1" and ra: "rangesAll P s1 w"
    and lo: "list_all P (loaded (trace w))"
    by (simp_all add: untouchedInv_def keptInv_def)
  from sc have b: "builder s1 = builder s0" by (simp add: sameConfig_def)
  have "sameConfig s0 (cumulateBoundedRange s1 br)"
    by (rule sameConfig_trans [OF sc cumulateBoundedRange_sameConfig])
  moreover have "rangesAll P (cumulateBoundedRange s1 br) w"
    by (rule cumulateBoundedRange_rangesAll [OF ra]) (use P br b in simp)
  ultimately show "untouchedInv P s0 (cumulateBoundedRange s1 br) w"
    using lo by (simp add: untouchedInv_def keptInv_def)
next
  fix x s w s' w'
  assume it: "mergeIteration env n s w = (x, s', w')" and k: "untouchedInv P s0 s w"
  from k have sc: "sameConfig s0 s" and ra: "rangesAll P s w"
    and lo: "list_all P (loaded (trace w))"
    by (simp_all add: untouchedInv_def keptInv_def)
  have "sameConfig s0 s'" by (rule sameConfig_trans [OF sc mergeIteration_sameConfig [OF it]])
  moreover have "rangesAll P s' w'" by (rule mergeIteration_rangesAll [OF it ra])
  moreover have "list_all P (loaded (trace w'))"
    by (rule mergeIteration_loaded [OF it _ lo]) (use ra in \<open>simp add: rangesAll_def\<close>)
  ultimately show "untouchedInv P s0 s' w'" by (simp add: untouchedInv_def keptInv_def)
next
  from j show "storeSaveInterval s = storeSaveInterval s0"
    by (simp add: untouchedInv_def keptInv_def sameConfig_def)
qed

lemma mergeAvailablePartials_idle:
  assumes "\<not> ctxDone env (polls w)"
    and "ranges s = [] \<or> nextExpectedStartBlock s \<noteq> StartBlock (hd (ranges s))"
  shows "mergeAvailablePartials env n s w = (None, s, w\<lparr>polls := polls w + 1\<rparr>)"
  using assms by (cases "ranges s") (simp_all add: mergeIteration_def Let_def)

lemma mergeAvailablePartials_cancelled:
  assumes "ctxDone env (polls w)"
  shows "mergeAvailablePartials env n s w = (Some ContextErr, s, w\<lparr>polls := polls w + 1\<rparr>)"
  using assms by (simp add: mergeIteration_def Let_def)


lemma mergeRanges_turn_idle:
  assumes "\<not> ctxDone env (polls w)"
    and "ranges s = [] \<or> nextExpectedStartBlock s \<noteq> StartBlock (hd (ranges s))"
  shows "mergeRanges env n s w (br # ys) = mergeRanges env n s (w\<lparr>polls := polls w + 1\<rparr>) ys"
  by (simp add: mergeAvailablePartials_idle [OF assms] del: mergeAvailablePartials.simps)

lemma mergeRanges_turn_error:
  assumes "mergeAvailablePartials env n s w = (Some e, s', w')" and "\<forall>p. e \<noteq> Panicked p"
  shows "mergeRanges env n s w (br # ys)
           = (Some (SquashingRange (StartBlock br) (ExclusiveEndBlock br) e), s', w')"
  using assms by (cases e) (simp_all del: mergeAvailablePartials.simps)

text \<open>
  Claim C9 (as amended).  A sub-range \<open>br\<close> whose exclusive end block is not above the
  store's initial block is dropped by \<open>cumulateBoundedRange\<close>, which leaves the Squashable
  as it was.  If \<open>br\<close> does not start below the module's initial block, the first loop of
  \<open>squash\<close> goes on as if \<open>br\<close> were not in the split, so it brings no error there, and
  \<open>squash\<close> is the second loop run on the Squashable that the other sub-ranges leave.
  When everything pending, loaded or merged so far ends above the store's initial block,
  which holds of a new Squashable and is kept by \<open>squash\<close>, then after \<open>squash\<close> the range
  \<open>br\<close> is not pending and was neither loaded nor merged.  The second loop still calls
  \<open>mergeAvailablePartials\<close> once on the turn of \<open>br\<close>: with a live context and no
  mergeable head of the pending list that call does nothing and the loop goes on; an
  error of that call (a cancelled context, or a failing load, merge or write of another
  pending range) is returned wrapped with the bounds of \<open>br\<close>.  So a \<open>squash\<close> whose split
  is \<open>br\<close> alone, with a live context and nothing mergeable, returns \<open>nil\<close> and leaves the
  Squashable and the trace as they were.
\<close>

theorem squash_drops_range_below_store_initial_block:
  assumes dropped: "ExclusiveEndBlock br \<le> StoreInitialBlock (builder s)"
  shows "cumulateBoundedRange s br = s
     \<and> (ModuleInitialBlock (builder s) \<le> StartBlock br \<longrightarrow>
          cumulateRanges s (xs @ br # ys) = cumulateRanges s (xs @ ys))
     \<and> (ModuleInitialBlock (builder s) \<le> StartBlock br
          \<and> split env r (storeSaveInterval s) = xs @ br # ys \<longrightarrow>
          squash env notifier s w r
            = (case cumulateRanges s (xs @ ys) of
                 (Some err, s1) \<Rightarrow> (Some err, s1, w)
               | (None, s1) \<Rightarrow> mergeRanges env notifier s1 w (xs @ br # ys)))
     \<and> (list_all (\<lambda>r. StoreInitialBlock (builder s) < ExclusiveEndBlock r) (ranges s)
        \<and> list_all (\<lambda>r. StoreInitialBlock (builder s) < ExclusiveEndBlock r) (merged (trace w))
        \<and> list_all (\<lambda>r. StoreInitialBlock (builder s) < ExclusiveEndBlock r) (loaded (trace w))
        \<and> squash env notifier s w r = (x, s', w') \<longrightarrow>
          br \<notin> set (ranges s') \<and> br \<notin> set (merged (trace w'))
          \<and> br \<notin> set (loaded (trace w')))
     \<and> (\<forall>s1 w1. \<not> ctxDone env (polls w1)
            \<and> (ranges s1 = [] \<or> nextExpectedStartBlock s1 \<noteq> StartBlock (hd (ranges s1))) \<longrightarrow>
          mergeRanges env notifier s1 w1 (br # ys)
            = mergeRanges env notifier s1 (w1\<lparr>polls := polls w1 + 1\<rparr>) ys)
     \<and> (\<forall>s1 w1 e s2 w2. mergeAvailablePartials env notifier s1 w1 = (Some e, s2, w2)
            \<and> (\<forall>p. e \<noteq> Panicked p) \<longrightarrow>
          mergeRanges env notifier s1 w1 (br # ys)
            = (Some (SquashingRange (StartBlock br) (ExclusiveEndBlock br) e), s2, w2))
     \<and> (ModuleInitialBlock (builder s) \<le> StartBlock br
          \<and> split env r (storeSaveInterval s) = [br]
          \<and> \<not> ctxDone env (polls w)
          \<and> (ranges s = [] \<or> nextExpectedStartBlock s \<noteq> StartBlock (hd (ranges s))) \<longrightarrow>
          squash env notifier s w r = (None, s, w\<lparr>polls := polls w + 1\<rparr>))"
proof (intro conjI impI allI)
  show cb: "cumulateBoundedRange s br = s"
    using dropped by (simp add: cumulateBoundedRange_def)
  {
    assume "ModuleInitialBlock (builder s) \<le> StartBlock br"
    from cumulateRanges_skip [OF dropped this refl]
    show "cumulateRanges s (xs @ br # ys) = cumulateRanges s (xs @ ys)" .
  }
  {
    assume a: "ModuleInitialBlock (builder s) \<le> StartBlock br
          \<and> split env r (storeSaveInterval s) = xs @ br # ys"
    then have m: "ModuleInitialBlock (builder s) \<le> StartBlock br" by simp
    from cumulateRanges_skip [OF dropped m refl]
    have "cumulateRanges s (xs @ br # ys) = cumulateRanges s (xs @ ys)" .
    with a show "squash env notifier s w r
            = (case cumulateRanges s (xs @ ys) of
                 (Some err, s1) \<Rightarrow> (Some err, s1, w)
               | (None, s1) \<Rightarrow> mergeRanges env notifier s1 w (xs @ br # ys))"
      by (simp add: squash_def)
  }
  {
    let ?P = "\<lambda>r. StoreInitialBlock (builder s) < ExclusiveEndBlock r"
    assume a: "list_all ?P (ranges s) \<and> list_all ?P (merged (trace w))
        \<and> list_all ?P (loaded (trace w)) \<and> squash env notifier s w r = (x, s', w')"
    then have run: "squash env notifier s w r = (x, s', w')" and k: "untouchedInv ?P s s w"
      by (simp_all add: untouchedInv_def keptInv_def rangesAll_def sameConfig_refl)
    have "untouchedInv ?P s s' w'"
      by (rule squash_untouchedInv [OF run k]) simp
    then have all: "list_all ?P (ranges s')" "list_all ?P (merged (trace w'))"
      "list_all ?P (loaded (trace w'))"
      by (simp_all add: untouchedInv_def keptInv_def rangesAll_def)
    have nP: "\<not> ?P br" using dropped by (simp add: not_less)
    from all(1) nP show "br \<notin> set (ranges s')" by (auto simp: list_all_iff)
    from all(2) nP show "br \<notin> set (merged (trace w'))" by (auto simp: list_all_iff)
    from all(3) nP show "br \<notin> set (loaded (trace w'))" by (auto simp: list_all_iff)
  }
  {
    fix s1 :: Squashable and w1 :: world
    assume "\<not> ctxDone env (polls w1)
            \<and> (ranges s1 = [] \<or> nextExpectedStartBlock s1 \<noteq> StartBlock (hd (ranges s1)))"
    then show "mergeRanges env notifier s1 w1 (br # ys)
            = mergeRanges env notifier s1 (w1\<lparr>polls := polls w1 + 1\<rparr>) ys"
      using mergeRanges_turn_idle by blast
  }
  {
    fix s1 :: Squashable and w1 :: world and e s2 w2
    assume "mergeAvailablePartials env notifier s1 w1 = (Some e, s2, w2)
            \<and> (\<forall>p. e \<noteq> Panicked p)"
    then show "mergeRanges env notifier s1 w1 (br # ys)
            = (Some (SquashingRange (StartBlock br) (ExclusiveEndBlock br) e), s2, w2)"
      using mergeRanges_turn_error by blast
  }
  {
    assume a: "ModuleInitialBlock (builder s) \<le> StartBlock br
          \<and> split env r (storeSaveInterval s) = [br]
          \<and> \<not> ctxDone env (polls w)
          \<and> (ranges s = [] \<or> nextExpectedStartBlock s \<noteq> StartBlock (hd (ranges s)))"
    then have "\<not> StartBlock br < ModuleInitialBlock (builder s)" by (simp add: not_less)
    with a cb have "squash env notifier s w r = mergeRanges env notifier s w [br]"
      by (simp add: squash_def)
    also have "\<dots> = mergeRanges env notifier s (w\<lparr>polls := polls w + 1\<rparr>) []"
      using a by (intro mergeRanges_turn_idle) simp_all
    finally show "squash env notifier s w r = (None, s, w\<lparr>polls := polls w + 1\<rparr>)" by simp
  }
qed

theorem squash_drops_range_below_store_initial_block_witness:
  "ExclusiveEndBlock \<lparr>StartBlock = 0, ExclusiveEndBlock = 100\<rparr>
     \<le> StoreInitialBlock (builder (NewSquashable (storeB\<lparr>StoreInitialBlock := 100\<rparr>) 300 100 0))
   \<and> ModuleInitialBlock (builder (NewSquashable (storeB\<lparr>StoreInitialBlock := 100\<rparr>) 300 100 0))
       \<le> StartBlock \<lparr>StartBlock = 0, ExclusiveEndBlock = 100\<rparr>
   \<and> split quietEnv \<lparr>StartBlock = 0, ExclusiveEndBlock = 100\<rparr> 100
       = [\<lparr>StartBlock = 0, ExclusiveEndBlock = 100\<rparr>]
   \<and> squash quietEnv True (NewSquashable (storeB\<lparr>StoreInitialBlock := 100\<rparr>) 300 100 0)
        emptyWorld \<lparr>StartBlock = 0, ExclusiveEndBlock = 100\<rparr>
      = (None, NewSquashable (storeB\<lparr>StoreInitialBlock := 100\<rparr>) 300 100 0,
         \<lparr>polls = 1, trace = []\<rparr>)"
proof -
  let ?r = "\<lparr>StartBlock = 0, ExclusiveEndBlock = 100\<rparr>"
  let ?s = "NewSquashable (storeB\<lparr>StoreInitialBlock := 100\<rparr>) 300 100 0"
  have h1: "ExclusiveEndBlock ?r \<le> StoreInitialBlock (builder ?s)"
    by (simp add: NewSquashable_def storeB_def)
  have h2: "ModuleInitialBlock (builder ?s) \<le> StartBlock ?r"
    by (simp add: NewSquashable_def storeB_def)
  have h3: "split quietEnv ?r 100 = [?r]"
    by (simp add: quietEnv_def Split_0_100)
  have h4: "ModuleInitialBlock (builder ?s) \<le> StartBlock ?r
      \<and> split quietEnv ?r (storeSaveInterval ?s) = [?r]
      \<and> \<not> ctxDone quietEnv (polls emptyWorld)
      \<and> (ranges ?s = [] \<or> nextExpectedStartBlock ?s \<noteq> StartBlock (hd (ranges ?s)))"
    using h2 h3 by (simp add: NewSquashable_def quietEnv_def)
  from squash_drops_range_below_store_initial_block [OF h1, of "[]" "[]" quietEnv ?r True emptyWorld]
    h4
  have "squash quietEnv True ?s emptyWorld ?r = (None, ?s, emptyWorld\<lparr>polls := polls emptyWorld + 1\<rparr>)"
    by blast
  then have eq: "squash quietEnv True ?s emptyWorld ?r = (None, ?s, \<lparr>polls = 1, trace = []\<rparr>)"
    by (simp add: emptyWorld_def)
  show ?thesis by (intro conjI h1 h2 h3 eq)
qed

text \<open>
  Claim C9 as stated lets such a sub-range bring no error.  With the module and the store
  both starting at block 100, the sub-range \<open>[0, 100)\<close> ends at the store's initial block,
  yet \<open>squash\<close> returns the error about a start block prior to the initial block: that
  check comes before \<open>cumulateBoundedRange\<close>.  And with the module starting at 0 and the
  store at 100, the same sub-range is dropped, but under a cancelled context \<open>squash\<close>
  returns the context's error wrapped with the bounds of the dropped sub-range.
\<close>

theorem squash_drops_range_counterexample:
  "ExclusiveEndBlock \<lparr>StartBlock = 0, ExclusiveEndBlock = 100\<rparr>
     \<le> StoreInitialBlock (builder (NewSquashable
          \<lparr>Name = ''B'', ModuleInitialBlock = 100, StoreInitialBlock = 100\<rparr> 300 100 100))
   \<and> split quietEnv \<lparr>StartBlock = 0, ExclusiveEndBlock = 100\<rparr> 100
      = [\<lparr>StartBlock = 0, ExclusiveEndBlock = 100\<rparr>]
   \<and> squash quietEnv True
        (NewSquashable \<lparr>Name = ''B'', ModuleInitialBlock = 100, StoreInitialBlock = 100\<rparr> 300 100 100)
        emptyWorld \<lparr>StartBlock = 0, ExclusiveEndBlock = 100\<rparr>
      = (Some (StartBlockPriorToInitialBlock ''B'' 0 100),
         NewSquashable \<lparr>Name = ''B'', ModuleInitialBlock = 100, StoreInitialBlock = 100\<rparr> 300 100 100,
         emptyWorld)
   \<and> ExclusiveEndBlock \<lparr>StartBlock = 0, ExclusiveEndBlock = 100\<rparr>
     \<le> StoreInitialBlock (builder (NewSquashable (storeB\<lparr>StoreInitialBlock := 100\<rparr>) 300 100 0))
   \<and> squash cancelledEnv True (NewSquashable (storeB\<lparr>StoreInitialBlock := 100\<rparr>) 300 100 0)
        emptyWorld \<lparr>StartBlock = 0, ExclusiveEndBlock = 100\<rparr>
      = (Some (SquashingRange 0 100 ContextErr),
         NewSquashable (storeB\<lparr>StoreInitialBlock := 100\<rparr>) 300 100 0,
         \<lparr>polls = 1, trace = []\<rparr>)"
  by (simp add: squash_def quietEnv_def cancelledEnv_def NewSquashable_def storeB_def Split_0_100
      cumulateBoundedRange_def mergeIteration_def emptyWorld_def)



lemma mergeIteration_kept:
  assumes "ranges s = r # rest" and "nextExpectedStartBlock s \<noteq> StartBlock r"
  shows "\<exists>x w1. mergeAvailablePartials env notifier s w = (x, s, w1) \<and> trace w1 = trace w"
  using assms by (simp add: mergeIteration_def Let_def)

lemma mergeIteration_merges:
  assumes "mergeIteration env notifier s w = (x, s1, w1)"
    and "merged (trace w1) \<noteq> merged (trace w)"
  shows "\<exists>r rest. ranges s = r # rest \<and> nextExpectedStartBlock s = StartBlock r
     \<and> merged (trace w1) = merged (trace w) @ [r]
     \<and> nextExpectedStartBlock s1 = ExclusiveEndBlock r"
  using assms
  by (auto simp: mergeIteration_def Let_def merged_record_event split: if_splits list.splits)

text \<open>
  Claim C2 (as amended).  Take a Squashable made by \<open>NewSquashable\<close> with
  \<open>nextExpectedStartBlock = n0\<close> (the module's initial block when nothing was stored, the
  end of the loaded snapshot otherwise) and any sequence of \<open>squash\<close> calls.  The ranges
  merged into the store form a chain that begins at \<open>n0\<close>: each starts at the exclusive
  end of the one before, and the last ends at \<open>nextExpectedStartBlock\<close>.  The pending list
  stays sorted.  When the sub-ranges handed to \<open>squash\<close> are non-empty, the starts of the
  merged ranges are strictly increasing and none is below \<open>n0\<close>.  A pending head range
  whose start differs from \<open>nextExpectedStartBlock\<close> is left in the list and nothing is
  merged; a turn of the loop that merges a range merges the head of the list, whose start
  is \<open>nextExpectedStartBlock\<close>, and sets \<open>nextExpectedStartBlock\<close> to its exclusive end.
\<close>

theorem squash_merges_contiguous:
  assumes run: "squashAll env notifier (NewSquashable b target I n0) \<lparr>polls = p, trace = []\<rparr> rs
                  = (results, s', w')"
  shows "chain n0 (merged (trace w')) (nextExpectedStartBlock s')
     \<and> sorted (map rangeKey (ranges s'))
     \<and> ((\<forall>r\<in>set rs. \<forall>br\<in>set (split env r I). StartBlock br < ExclusiveEndBlock br) \<longrightarrow>
          sorted_wrt (<) (map StartBlock (merged (trace w')))
          \<and> (\<forall>m\<in>set (merged (trace w')). n0 \<le> StartBlock m))
     \<and> (\<forall>s w r rest. ranges s = r # rest \<and> nextExpectedStartBlock s \<noteq> StartBlock r \<longrightarrow>
          (\<exists>x w1. mergeAvailablePartials env notifier s w = (x, s, w1) \<and> trace w1 = trace w))
     \<and> (\<forall>s w x s1 w1. mergeIteration env notifier s w = (x, s1, w1)
            \<and> merged (trace w1) \<noteq> merged (trace w) \<longrightarrow>
          (\<exists>r rest. ranges s = r # rest \<and> nextExpectedStartBlock s = StartBlock r
             \<and> merged (trace w1) = merged (trace w) @ [r]
             \<and> nextExpectedStartBlock s1 = ExclusiveEndBlock r))"
proof (intro conjI impI allI)
  let ?s0 = "NewSquashable b target I n0"
  let ?w0 = "\<lparr>polls = p, trace = []\<rparr>"
  have inv0: "runInv (\<lambda>r. True) n0 ?s0 ?s0 ?w0" by (rule NewSquashable_runInv)
  have "runInv (\<lambda>r. True) n0 ?s0 s' w'"
    by (rule squashAll_runInv [OF run inv0]) simp
  then have si: "squashInv n0 s' w'" by (simp add: runInv_def)
  from si show ch: "chain n0 (merged (trace w')) (nextExpectedStartBlock s')"
    by (simp add: squashInv_def)
  from si show "sorted (map rangeKey (ranges s'))" by (simp add: squashInv_def)
  {
    assume v: "\<forall>r\<in>set rs. \<forall>br\<in>set (split env r I). StartBlock br < ExclusiveEndBlock br"
    let ?P = "\<lambda>r. StartBlock r < ExclusiveEndBlock r"
    have invP: "runInv ?P n0 ?s0 ?s0 ?w0" by (rule NewSquashable_runInv)
    have "runInv ?P n0 ?s0 s' w'"
      by (rule squashAll_runInv [OF run invP]) (use v in \<open>simp add: NewSquashable_def\<close>)
    then have "list_all ?P (merged (trace w'))" by (simp add: runInv_def rangesAll_def)
    from chain_increasing [OF ch this]
    show "sorted_wrt (<) (map StartBlock (merged (trace w')))"
      and "\<forall>m\<in>set (merged (trace w')). n0 \<le> StartBlock m"
      by simp_all
  }
next
  fix s :: Squashable and w :: world and r rest
  assume "ranges s = r # rest \<and> nextExpectedStartBlock s \<noteq> StartBlock r"
  then show "\<exists>x w1. mergeAvailablePartials env notifier s w = (x, s, w1) \<and> trace w1 = trace w"
    using mergeIteration_kept by blast
next
  fix s :: Squashable and w :: world and x s1 w1
  assume "mergeIteration env notifier s w = (x, s1, w1) \<and> merged (trace w1) \<noteq> merged (trace w)"
  then show "\<exists>r rest. ranges s = r # rest \<and> nextExpectedStartBlock s = StartBlock r
             \<and> merged (trace w1) = merged (trace w) @ [r]
             \<and> nextExpectedStartBlock s1 = ExclusiveEndBlock r"
    using mergeIteration_merges by blast
qed


lemma Split_200_300: "Split \<lparr>StartBlock = 200, ExclusiveEndBlock = 300\<rparr> 100
    = [\<lparr>StartBlock = 200, ExclusiveEndBlock = 300\<rparr>]"
  by (simp add: Split_def upt_rec)

lemma Split_0_200: "Split \<lparr>StartBlock = 0, ExclusiveEndBlock = 200\<rparr> 100
    = [\<lparr>StartBlock = 0, ExclusiveEndBlock = 100\<rparr>, \<lparr>StartBlock = 100, ExclusiveEndBlock = 200\<rparr>]"
  by (simp add: Split_def upt_rec)

lemma Split_500_600: "Split \<lparr>StartBlock = 500, ExclusiveEndBlock = 600\<rparr> 100
    = [\<lparr>StartBlock = 500, ExclusiveEndBlock = 600\<rparr>]"
  by (simp add: Split_def upt_rec)

lemma squashAll_out_of_order:
  "squashAll quietEnv True (NewSquashable storeB 300 100 0) \<lparr>polls = 0, trace = []\<rparr>
      [\<lparr>StartBlock = 200, ExclusiveEndBlock = 300\<rparr>, \<lparr>StartBlock = 0, ExclusiveEndBlock = 200\<rparr>]
   = ([None, None],
      (NewSquashable storeB 300 100 0)\<lparr>nextExpectedStartBlock := 300, targetReached := True\<rparr>,
      \<lparr>polls = 6,
       trace =
         [Done (LoadFrom \<lparr>StartBlock = 0, ExclusiveEndBlock = 100\<rparr>),
          Done (Merge \<lparr>StartBlock = 0, ExclusiveEndBlock = 100\<rparr>),
          Done (WriteState 100),
          Done (LoadFrom \<lparr>StartBlock = 100, ExclusiveEndBlock = 200\<rparr>),
          Done (Merge \<lparr>StartBlock = 100, ExclusiveEndBlock = 200\<rparr>),
          Done (WriteState 200),
          Done (LoadFrom \<lparr>StartBlock = 200, ExclusiveEndBlock = 300\<rparr>),
          Done (Merge \<lparr>StartBlock = 200, ExclusiveEndBlock = 300\<rparr>),
          Done (WriteState 300), Done (Notify ''B'' 300)]\<rparr>)"
  by (simp add: squash_def quietEnv_def Split_200_300 Split_0_200 NewSquashable_def storeB_def
      cumulateBoundedRange_def sortRanges_def rangeKey_def mergeIteration_def record_event_def)

theorem squash_merges_contiguous_witness:
  "chain 0 [\<lparr>StartBlock = 0, ExclusiveEndBlock = 100\<rparr>,
               \<lparr>StartBlock = 100, ExclusiveEndBlock = 200\<rparr>,
               \<lparr>StartBlock = 200, ExclusiveEndBlock = 300\<rparr>] 300
   \<and> sorted_wrt (<) (map StartBlock [\<lparr>StartBlock = 0, ExclusiveEndBlock = 100\<rparr>,
               \<lparr>StartBlock = 100, ExclusiveEndBlock = 200\<rparr>,
               \<lparr>StartBlock = 200, ExclusiveEndBlock = 300\<rparr>])"
proof -
  have v: "\<forall>r\<in>set [\<lparr>StartBlock = 200, ExclusiveEndBlock = 300\<rparr>, \<lparr>StartBlock = 0, ExclusiveEndBlock = 200\<rparr>].
      \<forall>br\<in>set (split quietEnv r 100). StartBlock br < ExclusiveEndBlock br"
    by (simp add: quietEnv_def Split_200_300 Split_0_200)
  from squash_merges_contiguous [OF squashAll_out_of_order] v
  show ?thesis by simp
qed

text \<open>
  Claim C2 as stated has the merged ranges begin at the module's initial block.
  \<open>NewSquasher\<close> seeds a Squashable whose store has a saved snapshot with
  \<open>nextExpectedStartBlock = LastKVSavedBlock\<close>.  For a module that starts at block 0 with
  a snapshot up to 500, the first range merged is \<open>[500, 600)\<close>.
\<close>

theorem squash_merges_contiguous_counterexample:
  "squashAll quietEnv True (NewSquashable storeB 700 100 500) \<lparr>polls = 0, trace = []\<rparr>
      [\<lparr>StartBlock = 500, ExclusiveEndBlock = 600\<rparr>]
   = ([None], (NewSquashable storeB 700 100 500)\<lparr>nextExpectedStartBlock := 600\<rparr>,
      \<lparr>polls = 2,
       trace = [Done (LoadFrom \<lparr>StartBlock = 500, ExclusiveEndBlock = 600\<rparr>),
                Done (Merge \<lparr>StartBlock = 500, ExclusiveEndBlock = 600\<rparr>),
                Done (WriteState 600)]\<rparr>)
   \<and> merged [Done (LoadFrom \<lparr>StartBlock = 500, ExclusiveEndBlock = 600\<rparr>),
              Done (Merge \<lparr>StartBlock = 500, ExclusiveEndBlock = 600\<rparr>),
              Done (WriteState 600)]
      = [\<lparr>StartBlock = 500, ExclusiveEndBlock = 600\<rparr>]
   \<and> StartBlock \<lparr>StartBlock = 500, ExclusiveEndBlock = 600\<rparr>
       \<noteq> ModuleInitialBlock (builder (NewSquashable storeB 700 100 500))"
  by (simp add: squash_def quietEnv_def Split_500_600 NewSquashable_def storeB_def
      cumulateBoundedRange_def sortRanges_def rangeKey_def mergeIteration_def record_event_def)


subsection \<open>Readiness\<close>









section \<open>Properties of the Plan\<close>


lemma highestPriority_None: "highestPriority js = None \<longleftrightarrow> js = []"
  by (induction js) (auto split: option.splits)

lemma highestPriority_Some:
  "highestPriority js = Some j \<Longrightarrow> j \<in> set js \<and> (\<forall>k\<in>set js. priority k \<le> priority j)"
proof (induction js arbitrary: j)
  case Nil
  then show ?case by simp
next
  case (Cons a js)
  show ?case
  proof (cases "highestPriority js")
    case None
    then have "js = []" by (simp add: highestPriority_None)
    with Cons.prems None show ?thesis by simp
  next
    case (Some k)
    from Cons.IH [OF Some] have k: "k \<in> set js" "\<forall>x\<in>set js. priority x \<le> priority k"
      by simp_all
    show ?thesis
    proof (cases "priority a < priority k")
      case True
      with Cons.prems Some have "j = k" by simp
      with k True show ?thesis by auto
    next
      case False
      with Cons.prems Some have "j = a" by simp
      with k False show ?thesis by force
    qed
  qed
qed

lemma highestPriority_sorted_head:
  "sorted_wrt (\<lambda>a b. priority b \<le> priority a) (j # js) \<Longrightarrow> highestPriority (j # js) = Some j"
proof (induction js arbitrary: j)
  case Nil
  then show ?case by simp
next
  case (Cons a js)
  from Cons.prems have "sorted_wrt (\<lambda>a b. priority b \<le> priority a) (a # js)" by simp
  from Cons.IH [OF this] have h: "highestPriority (a # js) = Some a" .
  from Cons.prems have "priority a \<le> priority j" by simp
  with h show ?case by (simp del: highestPriority.simps(2) add: highestPriority.simps(2) [of j])
qed

text \<open>
  Claim C7.  With no ready job, \<open>NextJob\<close> returns \<open>nil\<close> and leaves the plan as it is.
  Otherwise it returns a ready job whose priority no ready job exceeds (the head of
  \<open>readyJobs\<close> when that list is sorted by descending priority, as \<open>prioritize\<close> keeps
  it), and removes it from \<open>readyJobs\<close>; \<open>waitingJobs\<close> is not touched.  In both cases
  \<open>moreComing\<close> is true if and only if \<open>waitingJobs\<close> is non-empty or \<open>readyJobs\<close>
  still has items after the removal.
\<close>

theorem NextJob_highest_priority:
  "(readyJobs p = [] \<longrightarrow> NextJob p = ((None, waitingJobs p \<noteq> []), p))
   \<and> (readyJobs p \<noteq> [] \<longrightarrow>
        (\<exists>job. fst (fst (NextJob p)) = Some job \<and> job \<in> set (readyJobs p)
           \<and> (\<forall>k\<in>set (readyJobs p). priority k \<le> priority job)
           \<and> (sorted_wrt (\<lambda>a b. priority b \<le> priority a) (readyJobs p) \<longrightarrow>
                job = hd (readyJobs p))
           \<and> readyJobs (snd (NextJob p)) = remove1 job (readyJobs p)
           \<and> length (readyJobs (snd (NextJob p))) + 1 = length (readyJobs p)))
   \<and> waitingJobs (snd (NextJob p)) = waitingJobs p
   \<and> (snd (fst (NextJob p))
        \<longleftrightarrow> waitingJobs p \<noteq> [] \<or> readyJobs (snd (NextJob p)) \<noteq> [])"
proof (cases "highestPriority (readyJobs p)")
  case None
  then have "readyJobs p = []" by (simp add: highestPriority_None)
  with None show ?thesis by (simp add: NextJob_def)
next
  case (Some job)
  then have ne: "readyJobs p \<noteq> []" using highestPriority_None [of "readyJobs p"] by auto
  note h = highestPriority_Some [OF Some]
  have hd: "sorted_wrt (\<lambda>a b. priority b \<le> priority a) (readyJobs p) \<longrightarrow> job = hd (readyJobs p)"
  proof
    assume s: "sorted_wrt (\<lambda>a b. priority b \<le> priority a) (readyJobs p)"
    from ne obtain j js where js: "readyJobs p = j # js" by (cases "readyJobs p") auto
    from highestPriority_sorted_head [OF s [unfolded js]] Some js show "job = hd (readyJobs p)"
      by simp
  qed
  have len: "length (remove1 job (readyJobs p)) + 1 = length (readyJobs p)"
    using h ne by (simp add: length_remove1 Suc_leI length_greater_0_conv)
  show ?thesis using Some ne h hd len by (simp add: NextJob_def Let_def)
qed

theorem NextJob_highest_priority_witness:
  "fst (NextJob \<lparr>waitingJobs = [], readyJobs = [mkJob ''As'', mkJob ''B'', mkJob ''C''],
                 modulesReadyUpToBlock = [''As'' \<mapsto> 0, ''B'' \<mapsto> 0, ''C'' \<mapsto> 0]\<rparr>)
     = (Some (mkJob ''As''), True)
   \<and> readyJobs (snd (NextJob \<lparr>waitingJobs = [], readyJobs = [mkJob ''As'', mkJob ''B'', mkJob ''C''],
                 modulesReadyUpToBlock = [''As'' \<mapsto> 0, ''B'' \<mapsto> 0, ''C'' \<mapsto> 0]\<rparr>))
     = [mkJob ''B'', mkJob ''C'']
   \<and> fst (NextJob \<lparr>waitingJobs = [mkJob ''As''], readyJobs = [],
                 modulesReadyUpToBlock = [''As'' \<mapsto> 0]\<rparr>)
     = (None, True)"
  using NextJob_highest_priority [of "\<lparr>waitingJobs = [], readyJobs = [mkJob ''As'', mkJob ''B'', mkJob ''C''],
                 modulesReadyUpToBlock = [''As'' \<mapsto> 0, ''B'' \<mapsto> 0, ''C'' \<mapsto> 0]\<rparr>"]
    NextJob_highest_priority [of "\<lparr>waitingJobs = [mkJob ''As''], readyJobs = [],
                 modulesReadyUpToBlock = [''As'' \<mapsto> 0]\<rparr>"]
  by (simp add: NextJob_def mkJob_def)

text \<open>The five cases of \<open>TestPlan_NextJob\<close>.\<close>

lemma TestPlan_NextJob:
  "fst (NextJob \<lparr>waitingJobs = [mkJob ''As''], readyJobs = [mkJob ''B''],
                 modulesReadyUpToBlock = [''As'' \<mapsto> 0, ''B'' \<mapsto> 0]\<rparr>) = (Some (mkJob ''B''), True)"
  "fst (NextJob \<lparr>waitingJobs = [mkJob ''As''], readyJobs = [],
                 modulesReadyUpToBlock = [''As'' \<mapsto> 0]\<rparr>) = (None, True)"
  "fst (NextJob \<lparr>waitingJobs = [], readyJobs = [mkJob ''As''],
                 modulesReadyUpToBlock = [''As'' \<mapsto> 0]\<rparr>) = (Some (mkJob ''As''), False)"
  "fst (NextJob \<lparr>waitingJobs = [], readyJobs = [], modulesReadyUpToBlock = Map.empty\<rparr>)
     = (None, False)"
  "fst (NextJob \<lparr>waitingJobs = [], readyJobs = [mkJob ''As'', mkJob ''B'', mkJob ''C''],
                 modulesReadyUpToBlock = [''As'' \<mapsto> 0, ''B'' \<mapsto> 0, ''C'' \<mapsto> 0]\<rparr>)
     = (Some (mkJob ''As''), True)"
  by (simp_all add: NextJob_def mkJob_def)


section \<open>Properties of the matrix of stages\<close>


lemma slice_at_Inr: "slice_at xs i = Inr x \<longleftrightarrow> 0 \<le> i \<and> i < int (length xs) \<and> x = xs ! nat i"
  by (auto simp: slice_at_def)

lemma slice_at_append: "slice_at xs i = Inr x \<Longrightarrow> slice_at (xs @ ys) i = Inr x"
  by (auto simp: slice_at_def nth_append split: if_splits)

lemma GetState_cellAt:
  "GetState s u = Inr st \<longleftrightarrow> cellAt s (Segment u) (Stage u) = Some st"
  by (auto simp: GetState_def slice_at_def cellAt_def split: if_splits)

lemma stateIs_GetState:
  "stateIs s seg stage st \<longleftrightarrow> GetState s \<lparr>Segment = seg, Stage = stage\<rparr> = Inr st"
  by (simp add: stateIs_def GetState_cellAt)

lemma grownFrom_refl: "grownFrom s s"
  unfolding grownFrom_def by (auto intro: exI [of _ 0])

lemma grownFrom_trans: "grownFrom s g \<Longrightarrow> grownFrom g h \<Longrightarrow> grownFrom s h"
  unfolding grownFrom_def by (auto simp: replicate_add [symmetric])

lemma grownFrom_growSegments: "grownFrom s (growSegments s)"
  unfolding grownFrom_def growSegments_def Let_def by auto

lemma GetState_grown: "grownFrom s g \<Longrightarrow> GetState s u = Inr x \<Longrightarrow> GetState g u = Inr x"
  by (auto simp: grownFrom_def GetState_def slice_at_append split: sum.splits)

lemma lowerStagesCompleted_grown:
  "grownFrom s g \<Longrightarrow> lowerStagesCompleted s seg n = Inr b \<Longrightarrow> lowerStagesCompleted g seg n = Inr b"
proof (induction n)
  case 0
  then show ?case by simp
next
  case (Suc n)
  from Suc.prems(2) obtain st where st: "GetState s \<lparr>Segment = seg - 1, Stage = int n\<rparr> = Inr st"
    by (auto split: sum.splits)
  note g = GetState_grown [OF Suc.prems(1) st]
  show ?case
  proof (cases "st = UnitCompleted")
    case True
    with Suc.prems(2) st have "lowerStagesCompleted s seg n = Inr b" by simp
    from Suc.IH [OF Suc.prems(1) this] g True show ?thesis by simp
  next
    case False
    with Suc.prems(2) st g show ?thesis by simp
  qed
qed

lemma dependenciesCompleted_grown:
  "grownFrom s g \<Longrightarrow> dependenciesCompleted s u = Inr b \<Longrightarrow> dependenciesCompleted g u = Inr b"
  unfolding dependenciesCompleted_def
  by (auto simp: grownFrom_def [of s g] split: sum.splits if_splits
      intro: lowerStagesCompleted_grown [unfolded grownFrom_def])


lemma lowerStagesCompleted_iff:
  "lowerStagesCompleted s seg n = Inr b \<Longrightarrow>
     (b \<longleftrightarrow> (\<forall>i\<in>{0..<int n}. stateIs s (seg - 1) i UnitCompleted))"
proof (induction n)
  case 0
  then show ?case by simp
next
  case (Suc n)
  from Suc.prems obtain st where st: "GetState s \<lparr>Segment = seg - 1, Stage = int n\<rparr> = Inr st"
    by (auto split: sum.splits)
  show ?case
  proof (cases "st = UnitCompleted")
    case True
    with Suc.prems st have r: "lowerStagesCompleted s seg n = Inr b" by simp
    have "{0..<int (Suc n)} = insert (int n) {0..<int n}" by auto
    with Suc.IH [OF r] st True show ?thesis by (simp add: stateIs_GetState)
  next
    case False
    with Suc.prems st have "b = False" by simp
    moreover have "\<not> stateIs s (seg - 1) (int n) UnitCompleted"
      using st False by (simp add: stateIs_GetState)
    moreover have "int n \<in> {0..<int (Suc n)}" by simp
    ultimately show ?thesis by blast
  qed
qed

lemma dependenciesCompleted_iff:
  assumes d: "dependenciesCompleted s u = Inr b"
  shows "b \<longleftrightarrow> depsCompleted s u"
proof -
  from d obtain stage where sl: "slice_at (stages s) (Stage u) = Inr stage"
    by (auto simp: dependenciesCompleted_def split: sum.splits)
  then have rng: "0 \<le> Stage u" and stage: "stage = stages s ! nat (Stage u)"
    by (simp_all add: slice_at_Inr)
  show ?thesis
  proof (cases "Segment u \<le> FirstIndex stage \<or> Stage u = 0")
    case True
    with d sl have "b = True" by (auto simp: dependenciesCompleted_def split: if_splits)
    with True stage show ?thesis by (auto simp: depsCompleted_def)
  next
    case False
    with d sl have l: "lowerStagesCompleted s (Segment u) (nat (Stage u)) = Inr b"
      by (auto simp: dependenciesCompleted_def)
    from lowerStagesCompleted_iff [OF l] rng
    have "b \<longleftrightarrow> (\<forall>i\<in>{0..<Stage u}. stateIs s (Segment u - 1) i UnitCompleted)" by simp
    with False stage show ?thesis by (auto simp: depsCompleted_def)
  qed
qed

lemma depsCompleted_started:
  "FirstIndex (stages s ! nat (Stage u)) \<le> Segment u \<Longrightarrow>
     depsCompleted s u \<longleftrightarrow> spec_dependenciesCompleted s u"
  by (auto simp: depsCompleted_def spec_dependenciesCompleted_def)

lemma stateIs_unit: "stateIs s (Segment v) (Stage v) st \<longleftrightarrow> GetState s v = Inr st"
  by (cases v) (simp add: stateIs_GetState)

lemma skipped_not_eligible: "skipped s v \<Longrightarrow> \<not> eligible s v"
  unfolding skipped_def eligible_def stateIs_unit
  using dependenciesCompleted_iff [of s v False] by auto

lemma accepted_eligible: "accepted s v \<Longrightarrow> eligible s v"
  unfolding accepted_def eligible_def stateIs_unit
  using dependenciesCompleted_iff [of s v True] by auto

lemma skipped_grown: "grownFrom s g \<Longrightarrow> skipped s v \<Longrightarrow> skipped g v"
  unfolding skipped_def
  using GetState_grown [of s g v] dependenciesCompleted_grown [of s g v False]
  by (auto simp: grownFrom_def [of s g])

lemma accepted_grown: "grownFrom s g \<Longrightarrow> accepted s v \<Longrightarrow> accepted g v"
  unfolding accepted_def
  using GetState_grown [of s g v] dependenciesCompleted_grown [of s g v True]
  by (auto simp: grownFrom_def [of s g])

lemma scanStages_None:
  "scanStages s seg n = Inr None \<Longrightarrow> n \<le> length (stages s) \<Longrightarrow>
     \<forall>j<n. skipped s \<lparr>Segment = seg, Stage = int j\<rparr>"
proof (induction n)
  case 0
  then show ?case by simp
next
  case (Suc n)
  let ?u = "\<lparr>Segment = seg, Stage = int n\<rparr>"
  from Suc.prems(1) obtain st where st: "GetState s ?u = Inr st"
    by (auto simp: Let_def split: sum.splits)
  have sl: "slice_at (stages s) (int n) = Inr (stages s ! n)"
    using Suc.prems(2) by (simp add: slice_at_def)
  have "skipped s ?u \<and> scanStages s seg n = Inr None"
  proof (cases "st \<noteq> UnitPending")
    case True
    with Suc.prems(1) st show ?thesis by (auto simp: skipped_def)
  next
    case False
    note pend = this
    show ?thesis
    proof (cases "seg < FirstIndex (stages s ! n)")
      case True
      with Suc.prems(1) st pend sl show ?thesis by (auto simp: skipped_def)
    next
      case False
      with Suc.prems(1) st pend sl obtain ok where ok: "dependenciesCompleted s ?u = Inr ok"
        by (auto simp: Let_def split: sum.splits)
      with Suc.prems(1) st pend sl False have "\<not> ok" "scanStages s seg n = Inr None"
        by (auto simp: Let_def split: if_splits)
      with ok False show ?thesis by (auto simp: skipped_def)
    qed
  qed
  with Suc.IH Suc.prems(2) show ?case by (auto simp: less_Suc_eq)
qed

lemma scanStages_Some:
  "scanStages s seg n = Inr (Some u) \<Longrightarrow> n \<le> length (stages s) \<Longrightarrow>
     Segment u = seg \<and> 0 \<le> Stage u \<and> Stage u < int n \<and> accepted s u
     \<and> (\<forall>j. nat (Stage u) < j \<and> j < n \<longrightarrow> skipped s \<lparr>Segment = seg, Stage = int j\<rparr>)"
proof (induction n)
  case 0
  then show ?case by simp
next
  case (Suc n)
  let ?u = "\<lparr>Segment = seg, Stage = int n\<rparr>"
  from Suc.prems(1) obtain st where st: "GetState s ?u = Inr st"
    by (auto simp: Let_def split: sum.splits)
  have sl: "slice_at (stages s) (int n) = Inr (stages s ! n)"
    using Suc.prems(2) by (simp add: slice_at_def)
  have "(u = ?u \<and> accepted s ?u) \<or> (skipped s ?u \<and> scanStages s seg n = Inr (Some u))"
  proof (cases "st \<noteq> UnitPending")
    case True
    with Suc.prems(1) st show ?thesis by (auto simp: skipped_def)
  next
    case False
    note pend = this
    show ?thesis
    proof (cases "seg < FirstIndex (stages s ! n)")
      case True
      with Suc.prems(1) st pend sl show ?thesis by (auto simp: skipped_def)
    next
      case False
      with Suc.prems(1) st pend sl obtain ok where ok: "dependenciesCompleted s ?u = Inr ok"
        by (auto simp: Let_def split: sum.splits)
      show ?thesis
      proof (cases ok)
        case True
        with Suc.prems(1) st pend sl False ok have "u = ?u" by (simp add: Let_def)
        with st pend False ok True show ?thesis by (simp add: accepted_def)
      next
        case no: False
        with Suc.prems(1) st pend sl False ok have "scanStages s seg n = Inr (Some u)"
          by (simp add: Let_def)
        with ok no False show ?thesis by (auto simp: skipped_def)
      qed
    qed
  qed
  then show ?case
  proof
    assume "u = ?u \<and> accepted s ?u"
    then show ?thesis by auto
  next
    assume a: "skipped s ?u \<and> scanStages s seg n = Inr (Some u)"
    with Suc.IH Suc.prems(2) have ih: "Segment u = seg" "0 \<le> Stage u" "Stage u < int n" "accepted s u"
      "\<forall>j. nat (Stage u) < j \<and> j < n \<longrightarrow> skipped s \<lparr>Segment = seg, Stage = int j\<rparr>"
      by auto
    from ih a show ?thesis by (auto simp: less_Suc_eq)
  qed
qed




lemma unit_eq: "Segment v = seg \<Longrightarrow> 0 \<le> Stage v \<Longrightarrow> \<lparr>Segment = seg, Stage = int (nat (Stage v))\<rparr> = v"
  by (cases v) simp

lemma unit_eq2: "Segment v = seg \<Longrightarrow> \<lparr>Segment = seg, Stage = Stage v\<rparr> = v"
  by (cases v) simp

lemma findJob_result:
  "findJob s idx = Inr (res, g) \<Longrightarrow>
     grownFrom s g \<and>
     (case res of
        None \<Rightarrow>
          (\<forall>v. idx \<le> Segment v \<and> Segment v \<le> LastIndex (segmenter s)
                \<and> 0 \<le> Stage v \<and> Stage v < int (length (stages s)) \<longrightarrow> skipped g v)
      | Some u \<Rightarrow>
          idx \<le> Segment u \<and> Segment u \<le> LastIndex (segmenter s)
          \<and> 0 \<le> Stage u \<and> Stage u < int (length (stages s)) \<and> accepted g u
          \<and> (\<forall>v. idx \<le> Segment v \<and> 0 \<le> Stage v \<and> Stage v < int (length (stages s))
                \<and> scannedBefore v u \<longrightarrow> skipped g v))"
proof (induction s idx arbitrary: res g rule: findJob.induct)
  case (1 s idx)
  define s1 where "s1 = (if int (length (segmentStates s)) \<le> idx - segmentOffset s
                then growSegments s else s)"
  have g1: "grownFrom s s1"
    by (simp add: s1_def grownFrom_refl grownFrom_growSegments)
  then have same: "segmenter s1 = segmenter s" "stages s1 = stages s"
    by (simp_all add: grownFrom_def)
  note unf = findJob.simps [of s idx, unfolded Let_def, folded s1_def]
  show ?case
  proof (cases "LastIndex (segmenter s1) < idx")
    case True
    with "1.prems" unf have "res = None" "g = s1" by simp_all
    with g1 True same show ?thesis by auto
  next
    case False
    show ?thesis
    proof (cases "scanStages s1 idx (length (stages s1))")
      case (Inl p)
      with "1.prems" unf False show ?thesis by simp
    next
      case (Inr found)
      show ?thesis
      proof (cases found)
        case None
        with "1.prems" unf False Inr have rec: "findJob s1 (idx + 1) = Inr (res, g)" by simp
        from "1.IH" [OF s1_def False Inr None rec]
        have gg: "grownFrom s1 g" and ih: "case res of
            None \<Rightarrow>
              (\<forall>v. idx + 1 \<le> Segment v \<and> Segment v \<le> LastIndex (segmenter s1)
                    \<and> 0 \<le> Stage v \<and> Stage v < int (length (stages s1)) \<longrightarrow> skipped g v)
          | Some u \<Rightarrow>
              idx + 1 \<le> Segment u \<and> Segment u \<le> LastIndex (segmenter s1)
              \<and> 0 \<le> Stage u \<and> Stage u < int (length (stages s1)) \<and> accepted g u
              \<and> (\<forall>v. idx + 1 \<le> Segment v \<and> 0 \<le> Stage v \<and> Stage v < int (length (stages s1))
                    \<and> scannedBefore v u \<longrightarrow> skipped g v)"
          by simp_all
        have row: "\<And>v. Segment v = idx \<Longrightarrow> 0 \<le> Stage v \<Longrightarrow> Stage v < int (length (stages s))
                     \<Longrightarrow> skipped g v"
        proof -
          fix v :: Unit
          assume v: "Segment v = idx" "0 \<le> Stage v" "Stage v < int (length (stages s))"
          from v same have "nat (Stage v) < length (stages s1)" by simp
          with scanStages_None [OF Inr [unfolded None] order_refl]
          have "skipped s1 \<lparr>Segment = idx, Stage = int (nat (Stage v))\<rparr>" by blast
          with v have "skipped s1 v" by (simp add: unit_eq unit_eq2)
          then show "skipped g v" by (rule skipped_grown [OF gg])
        qed
        have gr: "grownFrom s g" by (rule grownFrom_trans [OF g1 gg])
        show ?thesis
        proof (cases res)
          case None
          with ih same have "\<forall>v. idx + 1 \<le> Segment v \<and> Segment v \<le> LastIndex (segmenter s)
                    \<and> 0 \<le> Stage v \<and> Stage v < int (length (stages s)) \<longrightarrow> skipped g v"
            by simp
          with row have "\<forall>v. idx \<le> Segment v \<and> Segment v \<le> LastIndex (segmenter s)
                    \<and> 0 \<le> Stage v \<and> Stage v < int (length (stages s)) \<longrightarrow> skipped g v"
            by (metis add1_zle_eq order_le_less)
          with gr None show ?thesis by simp
        next
          case (Some u)
          with ih same have u: "idx + 1 \<le> Segment u" "Segment u \<le> LastIndex (segmenter s)"
            "0 \<le> Stage u" "Stage u < int (length (stages s))" "accepted g u"
            and before: "\<forall>v. idx + 1 \<le> Segment v \<and> 0 \<le> Stage v \<and> Stage v < int (length (stages s))
                    \<and> scannedBefore v u \<longrightarrow> skipped g v"
            by simp_all
          from before row have "\<forall>v. idx \<le> Segment v \<and> 0 \<le> Stage v \<and> Stage v < int (length (stages s))
                    \<and> scannedBefore v u \<longrightarrow> skipped g v"
            by (metis add1_zle_eq order_le_less)
          with gr Some u show ?thesis by simp
        qed
      next
        case (Some u)
        with "1.prems" unf False Inr have r: "res = Some u" "g = s1" by simp_all
        from scanStages_Some [OF Inr [unfolded Some] order_refl]
        have u: "Segment u = idx" "0 \<le> Stage u" "Stage u < int (length (stages s1))" "accepted s1 u"
          and hi: "\<forall>j. nat (Stage u) < j \<and> j < length (stages s1) \<longrightarrow>
                     skipped s1 \<lparr>Segment = idx, Stage = int j\<rparr>"
          by simp_all
        have "\<forall>v. idx \<le> Segment v \<and> 0 \<le> Stage v \<and> Stage v < int (length (stages s))
                    \<and> scannedBefore v u \<longrightarrow> skipped s1 v"
        proof (intro allI impI)
          fix v :: Unit
          assume a: "idx \<le> Segment v \<and> 0 \<le> Stage v \<and> Stage v < int (length (stages s))
                    \<and> scannedBefore v u"
          with u have v: "Segment v = idx" "Stage u < Stage v"
            by (auto simp: scannedBefore_def)
          with a u same have "nat (Stage u) < nat (Stage v) \<and> nat (Stage v) < length (stages s1)"
            by auto
          with hi have "skipped s1 \<lparr>Segment = idx, Stage = int (nat (Stage v))\<rparr>" by blast
          with v a show "skipped s1 v" by (simp add: unit_eq unit_eq2)
        qed
        with r g1 u same False show ?thesis by simp
      qed
    qed
  qed
qed


subsection \<open>A well-formed matrix is scanned without a panic\<close>


lemma GetState_in_range:
  assumes "segmentOffset s \<le> seg" "seg - segmentOffset s < int (length (segmentStates s))"
    and "list_all (\<lambda>row. length row = length (stages s)) (segmentStates s)"
    and "j < length (stages s)"
  shows "\<exists>st. GetState s \<lparr>Segment = seg, Stage = int j\<rparr> = Inr st"
proof -
  let ?i = "nat (seg - segmentOffset s)"
  have i: "?i < length (segmentStates s)" using assms(1,2) by simp
  then have "segmentStates s ! ?i \<in> set (segmentStates s)" by simp
  with assms(3) have "length (segmentStates s ! ?i) = length (stages s)"
    by (simp add: list_all_iff)
  with assms show ?thesis by (simp add: GetState_def slice_at_def)
qed

lemma lowerStagesCompleted_total:
  assumes "segmentOffset s \<le> seg - 1" "seg - 1 - segmentOffset s < int (length (segmentStates s))"
    and "list_all (\<lambda>row. length row = length (stages s)) (segmentStates s)"
  shows "n \<le> length (stages s) \<Longrightarrow> \<exists>b. lowerStagesCompleted s seg n = Inr b"
proof (induction n)
  case 0
  then show ?case by auto
next
  case (Suc n)
  then have "n < length (stages s)" by simp
  from GetState_in_range [OF assms this] obtain st
    where "GetState s \<lparr>Segment = seg - 1, Stage = int n\<rparr> = Inr st" by blast
  with Suc show ?case by auto
qed

lemma dependenciesCompleted_total:
  assumes off: "segmentOffset s \<le> FirstIndex (segmenter s)"
    and len: "seg - segmentOffset s < int (length (segmentStates s))"
    and rows: "list_all (\<lambda>row. length row = length (stages s)) (segmentStates s)"
    and firsts: "list_all (\<lambda>stage. FirstIndex (segmenter s) \<le> FirstIndex stage) (stages s)"
    and j: "j < length (stages s)"
  shows "\<exists>b. dependenciesCompleted s \<lparr>Segment = seg, Stage = int j\<rparr> = Inr b"
proof (cases "seg \<le> FirstIndex (stages s ! j) \<or> j = 0")
  case True
  with j show ?thesis by (auto simp: dependenciesCompleted_def slice_at_def)
next
  case False
  from firsts j have "FirstIndex (segmenter s) \<le> FirstIndex (stages s ! j)"
    by (simp add: list_all_iff)
  with False off have a: "segmentOffset s \<le> seg - 1" by simp
  from len have b: "seg - 1 - segmentOffset s < int (length (segmentStates s))" by simp
  from lowerStagesCompleted_total [OF a b rows, of j] j obtain r
    where "lowerStagesCompleted s seg j = Inr r" by auto
  with False j show ?thesis by (auto simp: dependenciesCompleted_def slice_at_def)
qed

lemma scanStages_total:
  assumes off: "segmentOffset s \<le> FirstIndex (segmenter s)" and seg: "FirstIndex (segmenter s) \<le> seg"
    and len: "seg - segmentOffset s < int (length (segmentStates s))"
    and rows: "list_all (\<lambda>row. length row = length (stages s)) (segmentStates s)"
    and firsts: "list_all (\<lambda>stage. FirstIndex (segmenter s) \<le> FirstIndex stage) (stages s)"
  shows "n \<le> length (stages s) \<Longrightarrow> \<exists>r. scanStages s seg n = Inr r"
proof (induction n)
  case 0
  then show ?case by simp
next
  case (Suc n)
  then have n: "n < length (stages s)" and ih: "\<exists>r. scanStages s seg n = Inr r" by simp_all
  from off seg have "segmentOffset s \<le> seg" by simp
  from GetState_in_range [OF this len rows n] obtain st
    where st: "GetState s \<lparr>Segment = seg, Stage = int n\<rparr> = Inr st" by blast
  from dependenciesCompleted_total [OF off len rows firsts n] obtain b
    where b: "dependenciesCompleted s \<lparr>Segment = seg, Stage = int n\<rparr> = Inr b" by blast
  have sl: "slice_at (stages s) (int n) = Inr (stages s ! n)"
    using n by (simp add: slice_at_def)
  from ih st b sl show ?case by (auto simp: Let_def)
qed

lemma findJob_total: "scanInv s idx \<Longrightarrow> \<exists>res g. findJob s idx = Inr (res, g)"
proof (induction s idx rule: findJob.induct)
  case (1 s idx)
  define s1 where "s1 = (if int (length (segmentStates s)) \<le> idx - segmentOffset s
                then growSegments s else s)"
  note unf = findJob.simps [of s idx, unfolded Let_def, folded s1_def]
  from "1.prems" have inv: "segmentOffset s \<le> FirstIndex (segmenter s)"
    "FirstIndex (segmenter s) \<le> idx" "idx - segmentOffset s \<le> int (length (segmentStates s))"
    "list_all (\<lambda>row. length row = length (stages s)) (segmentStates s)"
    "list_all (\<lambda>stage. FirstIndex (segmenter s) \<le> FirstIndex stage) (stages s)"
    by (simp_all add: scanInv_def)
  have same: "segmenter s1 = segmenter s" "stages s1 = stages s" "segmentOffset s1 = segmentOffset s"
    by (simp_all add: s1_def growSegments_def Let_def)
  have len1: "idx - segmentOffset s1 < int (length (segmentStates s1))"
    using inv(3) by (auto simp: s1_def growSegments_def Let_def)
  have rows1: "list_all (\<lambda>row. length row = length (stages s1)) (segmentStates s1)"
    using inv(4) by (auto simp: s1_def growSegments_def Let_def list_all_iff)
  show ?case
  proof (cases "LastIndex (segmenter s1) < idx")
    case True
    with unf show ?thesis by simp
  next
    case False
    from scanStages_total [of s1 idx "length (stages s1)"] inv same len1 rows1
    obtain found where f: "scanStages s1 idx (length (stages s1)) = Inr found" by auto
    show ?thesis
    proof (cases found)
      case None
      have "scanInv s1 (idx + 1)"
        using inv same len1 rows1 by (simp add: scanInv_def)
      from "1.IH" [OF s1_def False f None this] unf False f None show ?thesis by simp
    next
      case (Some u)
      with unf False f show ?thesis by simp
    qed
  qed
qed

lemma setState_total: "GetState s u = Inr x \<Longrightarrow> \<exists>s'. setState s u st = Inr s'"
  by (auto simp: GetState_def setState_def split: sum.splits)

lemma Stages_NextJob_total:
  assumes "wfStages s"
  shows "\<exists>res s'. Stages_NextJob s = Inr (res, s')"
proof -
  from assms have "scanInv s (FirstIndex (segmenter s))"
    by (simp add: wfStages_def scanInv_def)
  from findJob_total [OF this] obtain res g
    where f: "findJob s (FirstIndex (segmenter s)) = Inr (res, g)" by blast
  show ?thesis
  proof (cases res)
    case None
    with f show ?thesis by (simp add: Stages_NextJob_def)
  next
    case (Some u)
    with findJob_result [OF f] have "accepted g u" by simp
    then have "GetState g u = Inr UnitPending" by (simp add: accepted_def)
    from setState_total [OF this] obtain s' where "setState g u UnitScheduled = Inr s'" by blast
    with f Some show ?thesis by (simp add: Stages_NextJob_def markSegmentScheduled_def)
  qed
qed




lemma setState_segmenter: "setState s u st = Inr s' \<Longrightarrow> segmenter s' = segmenter s"
  by (auto simp: setState_def split: sum.splits)

lemma markSegmentScheduled_eq:
  "markSegmentScheduled g u = Inr s' \<Longrightarrow> s' = scheduledAt g u"
  by (auto simp: markSegmentScheduled_def setState_def scheduledAt_def slice_at_def
      split: sum.splits if_splits)

lemma cellAt_scheduledAt:
  "cellAt g (Segment u) (Stage u) = Some st \<Longrightarrow>
     cellAt (scheduledAt g u) seg stage
       = (if seg = Segment u \<and> stage = Stage u then Some UnitScheduled else cellAt g seg stage)"
  by (auto simp: cellAt_def scheduledAt_def nth_list_update split: if_splits)


lemma dependenciesCompleted_returns:
  assumes wf: "wfStages s"
    and len: "Segment u - segmentOffset s < int (length (segmentStates s))"
    and st: "0 \<le> Stage u" "Stage u < int (length (stages s))"
  shows "\<exists>b. dependenciesCompleted s u = Inr b"
proof -
  from wf have off: "segmentOffset s \<le> FirstIndex (segmenter s)"
    and rows: "list_all (\<lambda>row. length row = length (stages s)) (segmentStates s)"
    and firsts: "list_all (\<lambda>stage. FirstIndex (segmenter s) \<le> FirstIndex stage) (stages s)"
    by (simp_all add: wfStages_def)
  from st have j: "nat (Stage u) < length (stages s)" by simp
  have "\<lparr>Segment = Segment u, Stage = int (nat (Stage u))\<rparr> = u"
    using st(1) by (simp add: unit_eq)
  with dependenciesCompleted_total [OF off len rows firsts j]
  show ?thesis by simp
qed

text \<open>
  Claim C8 (as amended).  On a well-formed matrix (the segment offset is not above the
  segmenter's first index, the first index is not beyond the end of the matrix, every
  row has a cell for every stage, and no stage starts before the first index) \<open>NextJob\<close>
  returns.  Whenever it returns, the matrix has been grown by rows of pending cells to
  \<open>g\<close>, and either no unit of the segments from the segmenter's first to its last index
  is eligible in \<open>g\<close> and the zero unit with a \<open>nil\<close> range is returned, or the returned
  unit \<open>u\<close> is eligible in \<open>g\<close>, the new matrix is \<open>g\<close> with the cell of \<open>u\<close> set to
  scheduled, and no unit scanned before \<open>u\<close> (a lower segment from the first index on, or
  the same segment and a higher stage) is eligible.  A unit is eligible when its cell is
  pending, its stage has started (its segment is not below the stage's first index) and
  its dependencies are completed.  Whenever \<open>dependenciesCompleted\<close> returns, it returns
  true exactly when the unit's segment is not above its stage's first index, or its
  stage is 0, or every lower stage of the previous segment is completed; for a unit whose
  stage has started the first case is that the unit is in its stage's first segment.  On
  a well-formed matrix \<open>dependenciesCompleted\<close> returns for every unit of the matrix.
\<close>

theorem Stages_NextJob_first_eligible:
  "(wfStages s \<longrightarrow> (\<exists>res s'. Stages_NextJob s = Inr (res, s')))
   \<and> (\<forall>res s'. Stages_NextJob s = Inr (res, s') \<longrightarrow>
        (\<exists>g. grownFrom s g \<and>
          ((res = (\<lparr>Segment = 0, Stage = 0\<rparr>, None) \<and> s' = g
              \<and> (\<forall>v. FirstIndex (segmenter s) \<le> Segment v \<and> Segment v \<le> LastIndex (segmenter s)
                    \<and> 0 \<le> Stage v \<and> Stage v < int (length (stages s))
                    \<longrightarrow> \<not> eligible g v))
           \<or> (\<exists>u. res = (u, RangeAt (segmenter s) (Segment u))
                \<and> s' = scheduledAt g u
                \<and> cellAt s' (Segment u) (Stage u) = Some UnitScheduled
                \<and> FirstIndex (segmenter s) \<le> Segment u \<and> Segment u \<le> LastIndex (segmenter s)
                \<and> 0 \<le> Stage u \<and> Stage u < int (length (stages s))
                \<and> eligible g u
                \<and> (\<forall>v. FirstIndex (segmenter s) \<le> Segment v
                      \<and> 0 \<le> Stage v \<and> Stage v < int (length (stages s))
                      \<and> scannedBefore v u \<longrightarrow> \<not> eligible g v)))))
   \<and> (\<forall>u b. dependenciesCompleted s u = Inr b \<longrightarrow> (b \<longleftrightarrow> depsCompleted s u))
   \<and> (\<forall>u. FirstIndex (stages s ! nat (Stage u)) \<le> Segment u \<longrightarrow>
          (depsCompleted s u \<longleftrightarrow> spec_dependenciesCompleted s u))
   \<and> (\<forall>u. wfStages s \<and> Segment u - segmentOffset s < int (length (segmentStates s))
          \<and> 0 \<le> Stage u \<and> Stage u < int (length (stages s))
        \<longrightarrow> (\<exists>b. dependenciesCompleted s u = Inr b))"
proof (intro conjI impI allI)
  assume "wfStages s"
  then show "\<exists>res s'. Stages_NextJob s = Inr (res, s')" by (rule Stages_NextJob_total)
next
  fix res s'
  assume run: "Stages_NextJob s = Inr (res, s')"
  then obtain found g where f: "findJob s (FirstIndex (segmenter s)) = Inr (found, g)"
    by (auto simp: Stages_NextJob_def split: sum.splits)
  note r = findJob_result [OF f]
  then have gr: "grownFrom s g" by simp
  then have segm: "segmenter g = segmenter s" by (simp add: grownFrom_def)
  show "\<exists>g. grownFrom s g \<and>
          ((res = (\<lparr>Segment = 0, Stage = 0\<rparr>, None) \<and> s' = g
              \<and> (\<forall>v. FirstIndex (segmenter s) \<le> Segment v \<and> Segment v \<le> LastIndex (segmenter s)
                    \<and> 0 \<le> Stage v \<and> Stage v < int (length (stages s))
                    \<longrightarrow> \<not> eligible g v))
           \<or> (\<exists>u. res = (u, RangeAt (segmenter s) (Segment u))
                \<and> s' = scheduledAt g u
                \<and> cellAt s' (Segment u) (Stage u) = Some UnitScheduled
                \<and> FirstIndex (segmenter s) \<le> Segment u \<and> Segment u \<le> LastIndex (segmenter s)
                \<and> 0 \<le> Stage u \<and> Stage u < int (length (stages s))
                \<and> eligible g u
                \<and> (\<forall>v. FirstIndex (segmenter s) \<le> Segment v
                      \<and> 0 \<le> Stage v \<and> Stage v < int (length (stages s))
                      \<and> scannedBefore v u \<longrightarrow> \<not> eligible g v)))"
  proof (cases found)
    case None
    with run f have res: "res = (\<lparr>Segment = 0, Stage = 0\<rparr>, None)" "s' = g"
      by (simp_all add: Stages_NextJob_def)
    from r None have "\<forall>v. FirstIndex (segmenter s) \<le> Segment v \<and> Segment v \<le> LastIndex (segmenter s)
                    \<and> 0 \<le> Stage v \<and> Stage v < int (length (stages s)) \<longrightarrow> skipped g v"
      by simp
    then have "\<forall>v. FirstIndex (segmenter s) \<le> Segment v \<and> Segment v \<le> LastIndex (segmenter s)
                    \<and> 0 \<le> Stage v \<and> Stage v < int (length (stages s)) \<longrightarrow> \<not> eligible g v"
      using skipped_not_eligible by blast
    then show ?thesis by (intro exI [of _ g] conjI gr disjI1 res)
  next
    case (Some u)
    with run f have run': "(case markSegmentScheduled g u of Inl p \<Rightarrow> Inl p
        | Inr s2 \<Rightarrow> Inr ((u, RangeAt (segmenter s2) (Segment u)), s2)) = Inr (res, s')"
      by (simp add: Stages_NextJob_def)
    then obtain s2 where m: "markSegmentScheduled g u = Inr s2"
      by (cases "markSegmentScheduled g u") simp_all
    with run' have res0: "res = (u, RangeAt (segmenter s2) (Segment u))" "s' = s2"
      by auto
    from m have "segmenter s2 = segmenter g"
      by (simp add: markSegmentScheduled_def setState_segmenter)
    with res0 segm have res: "res = (u, RangeAt (segmenter s) (Segment u))" by simp
    from r Some have u: "FirstIndex (segmenter s) \<le> Segment u" "Segment u \<le> LastIndex (segmenter s)"
      "0 \<le> Stage u" "Stage u < int (length (stages s))" "accepted g u"
      and before: "\<forall>v. FirstIndex (segmenter s) \<le> Segment v \<and> 0 \<le> Stage v
          \<and> Stage v < int (length (stages s)) \<and> scannedBefore v u \<longrightarrow> skipped g v"
      by simp_all
    from before have nb: "\<forall>v. FirstIndex (segmenter s) \<le> Segment v \<and> 0 \<le> Stage v
          \<and> Stage v < int (length (stages s)) \<and> scannedBefore v u \<longrightarrow> \<not> eligible g v"
      using skipped_not_eligible by blast
    from u(5) have el: "eligible g u" by (rule accepted_eligible)
    from m res0(2) have s': "s' = scheduledAt g u" by (simp add: markSegmentScheduled_eq)
    from u(5) have "cellAt g (Segment u) (Stage u) = Some UnitPending"
      by (simp add: accepted_def GetState_cellAt)
    from cellAt_scheduledAt [OF this, of "Segment u" "Stage u"] s'
    have cell: "cellAt s' (Segment u) (Stage u) = Some UnitScheduled" by simp
    show ?thesis
      by (intro exI [of _ g] conjI gr disjI2 exI [of _ u] res s' cell u(1) u(2) u(3) u(4) el nb)
  qed
next
  fix u b
  assume "dependenciesCompleted s u = Inr b"
  then show "b \<longleftrightarrow> depsCompleted s u" by (rule dependenciesCompleted_iff)
next
  fix u :: Unit
  assume "FirstIndex (stages s ! nat (Stage u)) \<le> Segment u"
  then show "depsCompleted s u \<longleftrightarrow> spec_dependenciesCompleted s u"
    by (rule depsCompleted_started)
next
  fix u :: Unit
  assume "wfStages s \<and> Segment u - segmentOffset s < int (length (segmentStates s))
          \<and> 0 \<le> Stage u \<and> Stage u < int (length (stages s))"
  then show "\<exists>b. dependenciesCompleted s u = Inr b"
    using dependenciesCompleted_returns by blast
qed

lemma threeStages_NextJob:
  "Stages_NextJob threeStages
     = Inr ((\<lparr>Segment = 0, Stage = 2\<rparr>, Some \<lparr>StartBlock = 0, ExclusiveEndBlock = 10\<rparr>),
            threeStages\<lparr>segmentStates := [[UnitPending, UnitPending, UnitScheduled],
                                           [UnitPending, UnitPending, UnitPending]]\<rparr>)"
  by (simp add: Stages_NextJob_def findJob.simps threeStages_def fiveSegments_def tenBlocks_def
      growSegments_def GetState_def slice_at_def dependenciesCompleted_def
      markSegmentScheduled_def setState_def numeral_3_eq_3 numeral_2_eq_2)

theorem Stages_NextJob_first_eligible_witness:
  "wfStages threeStages
   \<and> Stages_NextJob threeStages
     = Inr ((\<lparr>Segment = 0, Stage = 2\<rparr>, Some \<lparr>StartBlock = 0, ExclusiveEndBlock = 10\<rparr>),
            threeStages\<lparr>segmentStates := [[UnitPending, UnitPending, UnitScheduled],
                                           [UnitPending, UnitPending, UnitPending]]\<rparr>)
   \<and> cellAt (threeStages\<lparr>segmentStates := [[UnitPending, UnitPending, UnitScheduled],
                                           [UnitPending, UnitPending, UnitPending]]\<rparr>) 0 2
       = Some UnitScheduled"
proof -
  have wf: "wfStages threeStages"
    by (simp add: wfStages_def threeStages_def fiveSegments_def)
  from Stages_NextJob_first_eligible [of threeStages] wf
  have "\<exists>res s'. Stages_NextJob threeStages = Inr (res, s')" by blast
  then show ?thesis using wf threeStages_NextJob
    by (simp add: cellAt_def threeStages_def)
qed

text \<open>
  Claim C8 as stated covers every state and has \<open>dependenciesCompleted\<close> hold exactly when
  the unit is in its stage's first segment, or its stage is 0, or the lower stages of the
  previous segment are completed.  For a third stage that starts at segment 3, the unit of
  segment 1 is before the stage's first segment and the cells of segment 0 are pending,
  yet \<open>dependenciesCompleted\<close> is true: its first test is \<open>u.Segment <= FirstIndex()\<close>.
  And on an empty matrix with offset 0 whose segmenter starts at index 2, \<open>NextJob\<close> grows
  the matrix to two rows and then reads row 2: an index out of range.
\<close>

theorem Stages_NextJob_counterexample:
  "wfStages lateStage
   \<and> dependenciesCompleted lateStage \<lparr>Segment = 1, Stage = 2\<rparr> = Inr True
   \<and> \<not> spec_dependenciesCompleted lateStage \<lparr>Segment = 1, Stage = 2\<rparr>
   \<and> Stages_NextJob lateStart = Inl IndexOutOfRange"
proof -
  have a: "wfStages lateStage"
    by (simp add: wfStages_def lateStage_def threeStages_def fiveSegments_def)
  have b: "dependenciesCompleted lateStage \<lparr>Segment = 1, Stage = 2\<rparr> = Inr True"
    by (simp add: dependenciesCompleted_def slice_at_def lateStage_def threeStages_def
        fiveSegments_def)
  have "\<not> stateIs lateStage 0 0 UnitCompleted"
    by (simp add: stateIs_def cellAt_def lateStage_def threeStages_def)
  moreover have "(0::int) \<in> {0..<2}" by simp
  ultimately have "\<not> (\<forall>i\<in>{0..<2}. stateIs lateStage (1 - 1) i UnitCompleted)"
    by (metis diff_self)
  then have c: "\<not> spec_dependenciesCompleted lateStage \<lparr>Segment = 1, Stage = 2\<rparr>"
    by (simp add: spec_dependenciesCompleted_def lateStage_def threeStages_def fiveSegments_def)
  have d: "Stages_NextJob lateStart = Inl IndexOutOfRange"
    by (simp add: Stages_NextJob_def findJob.simps lateStart_def threeStages_def fiveSegments_def
        growSegments_def GetState_def slice_at_def numeral_3_eq_3 numeral_2_eq_2)
  from a b c d show ?thesis by simp
qed


end
